theory Spec2Isabelle
  imports Complex_Main "HOL-Library.List_Lexorder" "HOL-Library.AList"
begin

section \<open>Text primitives\<close>

text \<open>
  A Python \<^verbatim>\<open>str\<close> is a sequence of Unicode code points; \<^verbatim>\<open>len\<close> counts code points.
  A text is therefore a list of code points, and \<open>ascii\<close> reads an ASCII literal.
\<close>

type_synonym ustr = "nat list"

definition ascii :: "string \<Rightarrow> ustr" where
  "ascii s = map of_char s"

text \<open>
  The characters that \<^verbatim>\<open>str.strip()\<close>, \<^verbatim>\<open>str.isspace()\<close> and the regular expression
  class \<^verbatim>\<open>\s\<close> (on a \<^verbatim>\<open>str\<close> pattern) treat as whitespace.
\<close>

definition is_space :: "nat \<Rightarrow> bool" where
  "is_space c \<longleftrightarrow>
     (9 \<le> c \<and> c \<le> 13) \<or> (28 \<le> c \<and> c \<le> 32) \<or> c = 133 \<or> c = 160 \<or> c = 5760 \<or>
     (8192 \<le> c \<and> c \<le> 8202) \<or> c = 8232 \<or> c = 8233 \<or> c = 8239 \<or> c = 8287 \<or> c = 12288"

definition strip :: "ustr \<Rightarrow> ustr" where
  "strip s = rev (dropWhile is_space (rev (dropWhile is_space s)))"

text \<open>\<^verbatim>\<open>sep.join(parts)\<close>.\<close>

fun join :: "ustr \<Rightarrow> ustr list \<Rightarrow> ustr" where
  "join sep [] = []"
| "join sep [x] = x"
| "join sep (x # y # ys) = x @ sep @ join sep (y # ys)"

text \<open>
  Python's slice \<^verbatim>\<open>xs[:k]\<close>: the first \<open>k\<close> elements when \<open>k \<ge> 0\<close>, all but the last
  \<open>-k\<close> elements when \<open>k < 0\<close>.
\<close>

definition py_take :: "int \<Rightarrow> 'a list \<Rightarrow> 'a list" where
  "py_take k xs = (if 0 \<le> k then take (nat k) xs else take (length xs - nat (- k)) xs)"

section \<open>Sentence splitting (nlp.py, \<^verbatim>\<open>split_sentences\<close>)\<close>

text \<open>
  The character class of the look-behind in \<^verbatim>\<open>_SENT_SPLIT_RE\<close>: the ideographic full
  stop U+3002, the full-width marks U+FF01 and U+FF1F, and \<^verbatim>\<open>!\<close>, \<^verbatim>\<open>?\<close>, \<^verbatim>\<open>.\<close>.
\<close>

definition is_sent_end :: "nat \<Rightarrow> bool" where
  "is_sent_end c \<longleftrightarrow> c = 12290 \<or> c = 65281 \<or> c = 65311 \<or> c = 33 \<or> c = 63 \<or> c = 46"

text \<open>
  \<^verbatim>\<open>_SENT_SPLIT_RE.split(text)\<close> for the pattern \<^verbatim>\<open>(?<=[P])\s+|\n+\<close>, with \<open>P\<close>
  the class above.
  The scan keeps the piece read so far in \<open>cur\<close>. At each position the first alternative is
  tried first: the character before the position is sentence-ending punctuation and a
  maximal run of whitespace follows; otherwise a maximal run of newlines is a separator.
  The character before a position is the last one of \<open>cur\<close>; when \<open>cur\<close> is empty the position
  is the start of the text or follows a separator, whose last character is whitespace and
  so never punctuation. Every piece is returned, the empty ones too.
\<close>

function sent_split_re :: "ustr \<Rightarrow> ustr \<Rightarrow> ustr list" where
  "sent_split_re cur [] = [cur]"
| "sent_split_re cur (c # cs) =
     (if cur \<noteq> [] \<and> is_sent_end (last cur) \<and> is_space c
        then cur # sent_split_re [] (dropWhile is_space cs)
      else if c = 10
        then cur # sent_split_re [] (dropWhile (\<lambda>x. x = 10) cs)
      else sent_split_re (cur @ [c]) cs)"
  by pat_completeness auto
termination
  by (relation "measure (\<lambda>(cur, s). length s)")
     (auto simp: less_Suc_eq_le length_dropWhile_le)

text \<open>The list \<^verbatim>\<open>raw\<close>: the non-blank pieces, stripped.\<close>

definition raw_fragments :: "ustr \<Rightarrow> ustr list" where
  "raw_fragments text =
     map strip (filter (\<lambda>s. s \<noteq> [] \<and> strip s \<noteq> []) (sent_split_re [] text))"

text \<open>
  The merge loop, with the loop state \<open>(out, buf)\<close> passed along; the last equation is the
  flush after the loop.
\<close>

fun merge_loop :: "ustr list \<Rightarrow> ustr \<Rightarrow> ustr list \<Rightarrow> ustr list" where
  "merge_loop out buf [] = (if buf \<noteq> [] then out @ [buf] else out)"
| "merge_loop out buf (s # rest) =
     (if length s < 20 \<and> buf \<noteq> []
        then merge_loop out (strip (buf @ [32] @ s)) rest
      else merge_loop (if buf \<noteq> [] then out @ [buf] else out) s rest)"

definition split_sentences :: "ustr \<Rightarrow> ustr list" where
  "split_sentences text = merge_loop [] [] (raw_fragments text)"

text \<open>A fragment is stripped when it is non-empty and neither starts nor ends with whitespace.\<close>

definition stripped :: "ustr \<Rightarrow> bool" where
  "stripped s \<longleftrightarrow> s \<noteq> [] \<and> \<not> is_space (hd s) \<and> \<not> is_space (last s)"

section \<open>Errors and sorting\<close>

text \<open>The exceptions that the modelled code can raise.\<close>

datatype error = ValueError | IndexError

text \<open>
  \<^verbatim>\<open>sorted(xs, key=key, reverse=reverse)\<close> and \<^verbatim>\<open>list.sort\<close>. The sort is stable, and with
  \<^verbatim>\<open>reverse=True\<close> it stays stable: the list is reversed, sorted and reversed again, so
  elements with equal keys keep their original order.
\<close>

definition sorted_by :: "('a \<Rightarrow> 'k::linorder) \<Rightarrow> bool \<Rightarrow> 'a list \<Rightarrow> 'a list" where
  "sorted_by key reverse xs =
     (if reverse then rev (sort_key key (rev xs)) else sort_key key xs)"

section \<open>Graph construction (graphing.py)\<close>

text \<open>
  The dataclass \<^verbatim>\<open>Edge\<close> with its fields \<^verbatim>\<open>a\<close>, \<^verbatim>\<open>b\<close> and \<^verbatim>\<open>weight\<close>. Weights are
  modelled as real numbers.
\<close>

datatype edge = Edge (edge_a: nat) (edge_b: nat) (edge_weight: real)

text \<open>
  The two-dimensional array \<^verbatim>\<open>sim\<close> is a list of rows; \<^verbatim>\<open>sim[i, j]\<close> raises
  \<^verbatim>\<open>IndexError\<close> outside the array.
\<close>

definition mat_get :: "real list list \<Rightarrow> nat \<Rightarrow> nat \<Rightarrow> error + real" where
  "mat_get sim i j =
     (if i < length sim \<and> j < length (sim ! i) then Inr (sim ! i ! j) else Inl IndexError)"

text \<open>
  The two nested loops of \<^verbatim>\<open>build_edges\<close>, with the list \<^verbatim>\<open>edges\<close> passed along:
  \<open>inner_loop\<close> runs \<^verbatim>\<open>for j in range(i+1, n)\<close>, \<open>outer_loop\<close> runs \<^verbatim>\<open>for i in range(n)\<close>.
\<close>

fun inner_loop :: "real list list \<Rightarrow> real \<Rightarrow> nat \<Rightarrow> nat list \<Rightarrow> edge list \<Rightarrow> error + edge list" where
  "inner_loop sim threshold i [] edges = Inr edges"
| "inner_loop sim threshold i (j # js) edges =
     (case mat_get sim i j of
        Inl e \<Rightarrow> Inl e
      | Inr w \<Rightarrow> inner_loop sim threshold i js
                 (if w \<ge> threshold then edges @ [Edge i j w] else edges))"

fun outer_loop :: "real list list \<Rightarrow> real \<Rightarrow> nat \<Rightarrow> nat list \<Rightarrow> edge list \<Rightarrow> error + edge list" where
  "outer_loop sim threshold n [] edges = Inr edges"
| "outer_loop sim threshold n (i # is) edges =
     (case inner_loop sim threshold i [i + 1 ..< n] edges of
        Inl e \<Rightarrow> Inl e
      | Inr edges' \<Rightarrow> outer_loop sim threshold n is edges')"

definition build_edges :: "real list list \<Rightarrow> real \<Rightarrow> error + edge list" where
  "build_edges sim threshold =
     (let n = length sim in
      case outer_loop sim threshold n [0 ..< n] [] of
        Inl e \<Rightarrow> Inl e
      | Inr edges \<Rightarrow> Inr (sorted_by edge_weight True edges))"

text \<open>The edges of row \<open>i\<close> and of the whole upper triangle, in the order the loops visit them.\<close>

definition row_edges :: "real list list \<Rightarrow> real \<Rightarrow> nat \<Rightarrow> nat list \<Rightarrow> edge list" where
  "row_edges sim th i js = map (\<lambda>j. Edge i j (sim ! i ! j)) (filter (\<lambda>j. th \<le> sim ! i ! j) js)"

definition upper_edges :: "real list list \<Rightarrow> real \<Rightarrow> nat \<Rightarrow> nat list \<Rightarrow> edge list" where
  "upper_edges sim th n is = concat (map (\<lambda>i. row_edges sim th i [i + 1 ..< n]) is)"

subsection \<open>Rendering\<close>

text \<open>The dataclass \<^verbatim>\<open>Node\<close> with its fields \<^verbatim>\<open>id\<close> and \<^verbatim>\<open>label\<close>.\<close>

datatype node = Node (node_id: int) (label: ustr)

text \<open>
  \<^verbatim>\<open>s.replace(old, new)\<close>: the occurrences of \<open>old\<close> are replaced from left to right, without
  overlap; an empty \<open>old\<close> matches before every character and at the end.
\<close>

function py_replace :: "ustr \<Rightarrow> ustr \<Rightarrow> ustr \<Rightarrow> ustr" where
  "py_replace old new s =
     (if old = [] then new @ concat (map (\<lambda>c. c # new) s)
      else if s = [] then []
      else if take (length old) s = old then new @ py_replace old new (drop (length old) s)
      else hd s # py_replace old new (tl s))"
  by pat_completeness auto
termination
  by (relation "measure (\<lambda>(old, new, s). length s)") auto

text \<open>\<^verbatim>\<open>str(n)\<close> for an integer: its decimal digits, with a minus sign when negative.\<close>

function str_nat :: "nat \<Rightarrow> ustr" where
  "str_nat n = (if n < 10 then [48 + n] else str_nat (n div 10) @ [48 + n mod 10])"
  by pat_completeness auto
termination
  by (relation "measure id") auto

definition str_int :: "int \<Rightarrow> ustr" where
  "str_int i = (if i < 0 then 45 # str_nat (nat (- i)) else str_nat (nat i))"

text \<open>
  The line of a node in \<^verbatim>\<open>render_dot\<close>. The source computes
  \<^verbatim>\<open>safe = nd.label.replace('"', '\"')\<close>; in a Python string literal \<^verbatim>\<open>'\"'\<close> is the
  one-character string holding the quote U+0022 (here \<open>[34]\<close>), the same as \<^verbatim>\<open>'"'\<close>.
\<close>

definition dot_node_line :: "node \<Rightarrow> ustr" where
  "dot_node_line nd =
     (let safe = py_replace [34] [34] (label nd)
      in ascii ''  D'' @ str_int (node_id nd) @ ascii '' [label='' @ [34] @ safe @ [34] @ ascii ''];'')"

text \<open>
  The line of an edge. \<open>fmt2f\<close> stands for Python's float formatting \<^verbatim>\<open>format(x, ".2f")\<close>,
  which is a parameter of the model.
\<close>

definition dot_edge_line :: "(real \<Rightarrow> ustr) \<Rightarrow> edge \<Rightarrow> ustr" where
  "dot_edge_line fmt2f e =
     ascii ''  D'' @ str_nat (edge_a e) @ ascii '' -- D'' @ str_nat (edge_b e) @
     ascii '' [label='' @ [34] @ fmt2f (edge_weight e) @ [34] @
     ascii '', penwidth='' @ fmt2f (1 + 4 * edge_weight e) @ ascii ''];''"

definition render_dot :: "(real \<Rightarrow> ustr) \<Rightarrow> node list \<Rightarrow> edge list \<Rightarrow> ustr" where
  "render_dot fmt2f nodes edges =
     join [10]
       ([ascii ''graph G {'', ascii ''  graph [overlap=false, splines=true];'',
         ascii ''  node [shape=box];''] @
        map dot_node_line nodes @
        map (dot_edge_line fmt2f) edges @
        [ascii ''}''])"

section \<open>Tokenization (utils.py, nlp.py)\<close>

text \<open>
  The class of \<^verbatim>\<open>_JP_RE\<close>: U+3040..U+30FF, U+3400..U+4DBF and U+4E00..U+9FFF.
\<close>

definition is_jp :: "nat \<Rightarrow> bool" where
  "is_jp c \<longleftrightarrow> (12352 \<le> c \<and> c \<le> 12543) \<or> (13312 \<le> c \<and> c \<le> 19903) \<or> (19968 \<le> c \<and> c \<le> 40959)"

text \<open>
  \<^verbatim>\<open>is_probably_japanese(text)\<close> with its default threshold \<^verbatim>\<open>0.08\<close>; the quotient is taken
  over the reals.
\<close>

definition is_probably_japanese :: "ustr \<Rightarrow> bool" where
  "is_probably_japanese text \<longleftrightarrow>
     (if text = [] then False
      else real (length (filter is_jp text)) / real (max (length text) 1) \<ge> 8 / 100)"

text \<open>The classes \<^verbatim>\<open>[A-Za-z]\<close> and \<^verbatim>\<open>[A-Za-z0-9\-']\<close> of \<^verbatim>\<open>_word_re\<close>.\<close>

definition is_alpha :: "nat \<Rightarrow> bool" where
  "is_alpha c \<longleftrightarrow> (65 \<le> c \<and> c \<le> 90) \<or> (97 \<le> c \<and> c \<le> 122)"

definition is_word_char :: "nat \<Rightarrow> bool" where
  "is_word_char c \<longleftrightarrow> is_alpha c \<or> (48 \<le> c \<and> c \<le> 57) \<or> c = 45 \<or> c = 39"

text \<open>
  \<^verbatim>\<open>[m.group(0) for m in _word_re.finditer(text)]\<close>: a match starts at a letter that is
  followed by at least one character of the second class and takes the longest run of such
  characters; the scan resumes after the match, or one character further when there is none.
\<close>

function word_matches :: "ustr \<Rightarrow> ustr list" where
  "word_matches [] = []"
| "word_matches (c # cs) =
     (if is_alpha c \<and> cs \<noteq> [] \<and> is_word_char (hd cs)
        then (c # takeWhile is_word_char cs) # word_matches (dropWhile is_word_char cs)
      else word_matches cs)"
  by pat_completeness auto
termination
  by (relation "measure length") (auto simp: less_Suc_eq_le length_dropWhile_le)

text \<open>\<^verbatim>\<open>str.lower()\<close> on a match of \<^verbatim>\<open>_word_re\<close>, whose characters are all ASCII.\<close>

definition lower :: "ustr \<Rightarrow> ustr" where
  "lower s = map (\<lambda>c. if 65 \<le> c \<and> c \<le> 90 then c + 32 else c) s"

definition EN_STOP :: "ustr list" where
  "EN_STOP = map ascii
    [''the'', ''a'', ''an'', ''and'', ''or'', ''to'', ''of'', ''in'', ''for'', ''on'',
     ''with'', ''as'', ''by'', ''at'', ''from'', ''is'', ''are'', ''was'', ''were'', ''be'',
     ''been'', ''being'', ''this'', ''that'', ''these'', ''those'', ''it'', ''we'', ''you'', ''they'',
     ''i'', ''he'', ''she'', ''them'', ''his'', ''her'', ''their'', ''our'', ''your'']"

definition JA_STOP :: "ustr list" where
  "JA_STOP =
    [[12371, 12428],
     [12381, 12428],
     [12354, 12428],
     [12371, 12392],
     [12383, 12417],
     [12424, 12358],
     [12418, 12398],
     [12392, 12371, 12429],
     [12381, 12375, 12390],
     [12375, 12363, 12375],
     [12414, 12383],
     [12391, 12377],
     [12414, 12377],
     [12377, 12427],
     [12356, 12427],
     [12354, 12427],
     [12394, 12427],
     [12391, 12365, 12427],
     [12425, 12428, 12427],
     [12394, 12393],
     [12395, 12390],
     [12395, 12424, 12427]]"

text \<open>
  \<^verbatim>\<open>tokenize(text)\<close>. The morphological segmenter \<^verbatim>\<open>_JA_TOKENIZER.tokenize\<close> belongs to an
  external library; it is the parameter \<open>ja\<close> of the model, and nothing is assumed about it.
\<close>

definition tokenize :: "(ustr \<Rightarrow> ustr list) \<Rightarrow> ustr \<Rightarrow> ustr list" where
  "tokenize ja text =
     (if is_probably_japanese text then
        let tokens = filter (\<lambda>t. strip t \<noteq> []) (ja text)
        in filter (\<lambda>t. t \<notin> set JA_STOP \<and> length t > 1) tokens
      else
        let tokens = map lower (word_matches text)
        in filter (\<lambda>t. t \<notin> set EN_STOP \<and> length t > 2) tokens)"

section \<open>Summarization (nlp.py, \<^verbatim>\<open>summarize\<close>)\<close>

text \<open>
  The dictionary \<^verbatim>\<open>freq\<close> is an association list in insertion order; \<open>bump\<close> is one step
  \<^verbatim>\<open>freq[tok] = freq.get(tok, 0) + 1\<close> of the counting loop.
\<close>

definition bump :: "(ustr \<times> nat) list \<Rightarrow> ustr \<Rightarrow> (ustr \<times> nat) list" where
  "bump freq tok = AList.update tok ((case map_of freq tok of None \<Rightarrow> 0 | Some n \<Rightarrow> n) + 1) freq"

definition token_counts :: "ustr list \<Rightarrow> (ustr \<times> nat) list" where
  "token_counts toks = foldl bump [] toks"

text \<open>
  The scores are Python floats. Their arithmetic is a parameter of the model: the type \<open>'f\<close>
  stands for the float values, ordered as \<^verbatim>\<open><\<close> orders them, and the record holds the
  operations that the scoring uses: the constants \<^verbatim>\<open>0.0\<close> and \<^verbatim>\<open>1.0\<close>, float addition and
  division, the true division \<^verbatim>\<open>/\<close> of two integers, \<^verbatim>\<open>math.log\<close> of an integer and the
  built-in \<^verbatim>\<open>sum\<close> of a list of floats (whose rounding depends on the interpreter). Nothing
  is assumed about the operations, so every property below holds for the rounded
  arithmetic of the program as it does for exact arithmetic. The scores of the program are
  finite and never NaN (a sum of quotients \<^verbatim>\<open>count / maxf\<close> divided by a number above one),
  so \<^verbatim>\<open><\<close> orders them linearly and no division raises.
\<close>

record 'f float_ops =
  f_zero :: 'f
  f_one :: 'f
  f_add :: "'f \<Rightarrow> 'f \<Rightarrow> 'f"
  f_div :: "'f \<Rightarrow> 'f \<Rightarrow> 'f"
  f_int_div :: "nat \<Rightarrow> nat \<Rightarrow> 'f"
  f_log :: "nat \<Rightarrow> 'f"
  f_sum :: "'f list \<Rightarrow> 'f"

text \<open>Exact arithmetic over the reals, one instance of the operations.\<close>

definition exact_ops :: "real float_ops" where
  "exact_ops =
     \<lparr>f_zero = 0, f_one = 1, f_add = (+), f_div = (/),
      f_int_div = (\<lambda>a b. real a / real b), f_log = (\<lambda>n. ln (real n)), f_sum = sum_list\<rparr>"

text \<open>
  Division of every count by \<^verbatim>\<open>maxf = max(freq.values())\<close>. The dictionary is not empty
  here, so \<^verbatim>\<open>maxf\<close> is at least one.
\<close>

definition normalise_freq :: "'f float_ops \<Rightarrow> (ustr \<times> nat) list \<Rightarrow> (ustr \<times> 'f) list" where
  "normalise_freq fl freq =
     (let maxf = Max (set (map snd freq))
      in map (\<lambda>(k, v). (k, f_int_div fl v maxf)) freq)"

text \<open>The score of one sentence; \<^verbatim>\<open>freq.get(t, 0.0)\<close> is the lookup with default.\<close>

definition sentence_score ::
  "'f float_ops \<Rightarrow> (ustr \<Rightarrow> ustr list) \<Rightarrow> (ustr \<times> 'f) list \<Rightarrow> ustr \<Rightarrow> 'f" where
  "sentence_score fl ja freq s =
     (let toks = tokenize ja s in
      if toks = [] then f_zero fl
      else f_div fl
             (f_sum fl (map (\<lambda>t. case map_of freq t of None \<Rightarrow> f_zero fl | Some w \<Rightarrow> w) toks))
             (f_add fl (f_one fl) (f_log fl (1 + length toks))))"

text \<open>The list \<^verbatim>\<open>scored\<close> of pairs of a sentence index and its score.\<close>

definition scored :: "'f float_ops \<Rightarrow> (ustr \<Rightarrow> ustr list) \<Rightarrow> ustr \<Rightarrow> (nat \<times> 'f) list" where
  "scored fl ja text =
     (let freq = normalise_freq fl (token_counts (tokenize ja text))
      in map (\<lambda>(i, s). (i, sentence_score fl ja freq s)) (enumerate 0 (split_sentences text)))"

text \<open>
  The list \<^verbatim>\<open>top_idx\<close>: the first \<^verbatim>\<open>sentences\<close> entries of \<^verbatim>\<open>scored\<close> sorted by score,
  highest first, sorted again by index.
\<close>

definition top_idx ::
  "('f::linorder) float_ops \<Rightarrow> (ustr \<Rightarrow> ustr list) \<Rightarrow> ustr \<Rightarrow> int \<Rightarrow> (nat \<times> 'f) list" where
  "top_idx fl ja text sentences =
     sorted_by fst False (py_take sentences (sorted_by snd True (scored fl ja text)))"

definition summarize ::
  "('f::linorder) float_ops \<Rightarrow> (ustr \<Rightarrow> ustr list) \<Rightarrow> ustr \<Rightarrow> int \<Rightarrow> ustr" where
  "summarize fl ja text sentences =
     (let sents = split_sentences text in
      if sents = [] then []
      else if token_counts (tokenize ja text) = [] then join [10] (py_take sentences sents)
      else let chosen = map (\<lambda>(i, _). sents ! i) (top_idx fl ja text sentences)
           in strip (join [10] chosen))"

text \<open>
  \<^verbatim>\<open>s.splitlines()\<close>. A line ends at \<^verbatim>\<open>\n\<close>, \<^verbatim>\<open>\r\<close>, \<^verbatim>\<open>\r\n\<close> (one boundary), \<^verbatim>\<open>\v\<close>, \<^verbatim>\<open>\f\<close>,
  U+001C, U+001D, U+001E, U+0085, U+2028 or U+2029; the boundaries are not part of the
  lines, the empty text has no line, and a boundary at the very end opens no line.
\<close>

definition is_line_boundary :: "nat \<Rightarrow> bool" where
  "is_line_boundary c \<longleftrightarrow>
     (10 \<le> c \<and> c \<le> 13) \<or> (28 \<le> c \<and> c \<le> 30) \<or> c = 133 \<or> c = 8232 \<or> c = 8233"

fun splitlines_from :: "ustr \<Rightarrow> ustr \<Rightarrow> ustr list" where
  "splitlines_from cur [] = (if cur = [] then [] else [cur])"
| "splitlines_from cur [c] = (if is_line_boundary c then [cur] else [cur @ [c]])"
| "splitlines_from cur (c # d # cs) =
     (if c = 13 \<and> d = 10 then cur # splitlines_from [] cs
      else if is_line_boundary c then cur # splitlines_from [] (d # cs)
      else splitlines_from (cur @ [c]) (d # cs))"

definition splitlines :: "ustr \<Rightarrow> ustr list" where
  "splitlines s = splitlines_from [] s"

text \<open>
  A notion for the proofs: the pieces of a text between newlines U+000A, without the empty
  piece after a final newline.
\<close>

fun split_on :: "nat \<Rightarrow> ustr \<Rightarrow> ustr \<Rightarrow> ustr list" where
  "split_on c cur [] = [cur]"
| "split_on c cur (x # xs) = (if x = c then cur # split_on c [] xs else split_on c (cur @ [x]) xs)"

definition newline_lines :: "ustr \<Rightarrow> ustr list" where
  "newline_lines s =
     (let ps = split_on 10 [] s in if last ps = [] then butlast ps else ps)"

section \<open>Vector space and comparison (nlp.py)\<close>

subsection \<open>The TF-IDF vectoriser\<close>

text \<open>
  Both \<^verbatim>\<open>compare_texts\<close> and \<^verbatim>\<open>pairwise_similarity\<close> build
  \<^verbatim>\<open>TfidfVectorizer(tokenizer=tokenize, lowercase=False, min_df=1, max_df=0.95,
  ngram_range=(1,2))\<close>, call \<^verbatim>\<open>fit_transform\<close> on the texts and pass the rows to
  \<^verbatim>\<open>cosine_similarity\<close>. The vectoriser and the similarity function belong to an external
  library whose code is not among the sources; the definitions of this subsection model
  them from sections 4.4, 4.5 and 7 of the specification. Weights are real numbers.
\<close>

text \<open>
  Modelled from the spec: the term extractor of the vectoriser, which is not among the
  sources. The terms of a document are the unigrams of the filtered token stream followed
  by its bigrams, each bigram being two consecutive tokens joined by a space.
\<close>

definition word_ngrams :: "ustr list \<Rightarrow> ustr list" where
  "word_ngrams toks = toks @ map (\<lambda>(x, y). x @ [32] @ y) (zip toks (tl toks))"

definition analyze :: "(ustr \<Rightarrow> ustr list) \<Rightarrow> ustr \<Rightarrow> ustr list" where
  "analyze ja text = word_ngrams (tokenize ja text)"

text \<open>
  Modelled from the spec: the vocabulary of the vectoriser, which is not among the sources.
  It holds every term of the supplied documents once; the library keeps it in sorted
  order, which fixes the index of a term in a row.
\<close>

definition vocabulary :: "ustr list list \<Rightarrow> ustr list" where
  "vocabulary docs = sort (remdups (concat docs))"

text \<open>
  Modelled from the spec: the document frequency \<open>df\<close> of a term, the number of supplied
  documents it occurs in.
\<close>

definition doc_freq :: "ustr list list \<Rightarrow> ustr \<Rightarrow> nat" where
  "doc_freq docs t = length (filter (\<lambda>d. t \<in> set d) docs)"

text \<open>The arguments \<^verbatim>\<open>max_df=0.95\<close> and \<^verbatim>\<open>min_df=1\<close> that the source passes.\<close>

definition max_df :: real where
  "max_df = 95 / 100"

definition min_df :: nat where
  "min_df = 1"

text \<open>
  Modelled from the spec: the pruning of the vocabulary, which is not among the sources.
  A term is dropped when it occurs in more than \<open>max_df\<close> (a proportion) of the supplied
  documents, or in fewer than \<open>min_df\<close> documents.
\<close>

definition kept_features :: "ustr list list \<Rightarrow> ustr list" where
  "kept_features docs =
     filter (\<lambda>t. real (doc_freq docs t) \<le> max_df * real (length docs) \<and> min_df \<le> doc_freq docs t)
       (vocabulary docs)"

text \<open>
  Modelled from the spec: the smoothed inverse document frequency
  \<open>ln ((1 + N) / (1 + df)) + 1\<close> of the vectoriser.
\<close>

definition idf :: "nat \<Rightarrow> nat \<Rightarrow> real" where
  "idf n df = ln ((1 + real n) / (1 + real df)) + 1"

text \<open>
  Modelled from the spec: the normalisation of a row to Euclidean length one, which is not
  among the sources. The row is divided by its norm; a row of norm zero is left as it is,
  as the library does.
\<close>

definition l2_normalize :: "real list \<Rightarrow> real list" where
  "l2_normalize v =
     (let nrm = sqrt (\<Sum>x\<leftarrow>v. x * x)
      in map (\<lambda>x. x / (if nrm = 0 then 1 else nrm)) v)"

text \<open>
  Modelled from the spec: the row of one document, the count of every kept term in the
  document times the inverse document frequency of the term, normalised.
\<close>

definition tfidf_row :: "ustr list list \<Rightarrow> ustr list \<Rightarrow> ustr list \<Rightarrow> real list" where
  "tfidf_row docs kept d =
     l2_normalize (map (\<lambda>t. real (count_list d t) * idf (length docs) (doc_freq docs t)) kept)"

text \<open>
  Modelled from the spec: \<^verbatim>\<open>fit_transform\<close> of the vectoriser, which is not among the sources,
  on the analysed documents. It returns the feature names and one row per document, row
  \<open>i\<close> for text \<open>i\<close>. By section 7 a corpus without any term is an invalid input; the library
  raises \<^verbatim>\<open>ValueError\<close> for an empty vocabulary, for limits that contradict each other, and
  when the pruning leaves no term.
\<close>

definition fit_transform :: "ustr list list \<Rightarrow> error + ustr list \<times> real list list" where
  "fit_transform docs =
     (if vocabulary docs = [] then Inl ValueError
      else if max_df * real (length docs) < real min_df then Inl ValueError
      else let kept = kept_features docs in
        if kept = [] then Inl ValueError
        else Inr (kept, map (tfidf_row docs kept) docs))"

text \<open>
  Modelled from the spec: \<^verbatim>\<open>cosine_similarity(X, Y)\<close>, which is not among the sources: the
  dot products of the normalised rows of \<open>X\<close> with the normalised rows of \<open>Y\<close>.
\<close>

definition dot :: "real list \<Rightarrow> real list \<Rightarrow> real" where
  "dot x y = (\<Sum>(a, b)\<leftarrow>zip x y. a * b)"

definition cosine_similarity :: "real list list \<Rightarrow> real list list \<Rightarrow> real list list" where
  "cosine_similarity X Y = map (\<lambda>x. map (\<lambda>y. dot (l2_normalize x) (l2_normalize y)) Y) X"

subsection \<open>\<^verbatim>\<open>compare_texts\<close> and \<^verbatim>\<open>pairwise_similarity\<close>\<close>

record compare_result =
  similarity :: real
  common_terms :: "(ustr \<times> real) list"
  doc1_unique_terms :: "(ustr \<times> real) list"
  doc2_unique_terms :: "(ustr \<times> real) list"

text \<open>
  Modelled from the spec: \<^verbatim>\<open>v.argsort()\<close> of the array library, which is not among the
  sources: the indices of \<open>v\<close> in ascending order of their values, as the ranking of
  section 4.5 needs. The order among equal values is not fixed by the library; the model
  keeps them in index order, and no property below depends on it.
\<close>

definition argsort :: "real list \<Rightarrow> nat list" where
  "argsort v = sort_key (\<lambda>i. v ! i) [0 ..< length v]"

text \<open>
  One bucket of \<^verbatim>\<open>compare_texts\<close>:
  \<^verbatim>\<open>idx = v.argsort()[::-1][:top_terms]\<close> and
  \<^verbatim>\<open>[(feature_names[i], float(v[i])) for i in idx if v[i] > 0]\<close>.
\<close>

definition bucket :: "ustr list \<Rightarrow> real list \<Rightarrow> int \<Rightarrow> (ustr \<times> real) list" where
  "bucket feature_names v top_terms =
     (let idx = py_take top_terms (rev (argsort v))
      in map (\<lambda>i. (feature_names ! i, v ! i)) (filter (\<lambda>i. v ! i > 0) idx))"

definition compare_texts ::
  "(ustr \<Rightarrow> ustr list) \<Rightarrow> ustr \<Rightarrow> ustr \<Rightarrow> int \<Rightarrow> error + compare_result" where
  "compare_texts ja text1 text2 top_terms =
     (case fit_transform [analyze ja text1, analyze ja text2] of
        Inl e \<Rightarrow> Inl e
      | Inr (feature_names, X) \<Rightarrow>
          let sim = cosine_similarity [X ! 0] [X ! 1] ! 0 ! 0;
              v1 = X ! 0;
              v2 = X ! 1;
              common = map2 min v1 v2;
              u1 = map2 (\<lambda>a b. max (a - b) 0) v1 v2;
              u2 = map2 (\<lambda>a b. max (a - b) 0) v2 v1
          in Inr \<lparr>similarity = sim,
                  common_terms = bucket feature_names common top_terms,
                  doc1_unique_terms = bucket feature_names u1 top_terms,
                  doc2_unique_terms = bucket feature_names u2 top_terms\<rparr>)"

definition pairwise_similarity :: "(ustr \<Rightarrow> ustr list) \<Rightarrow> ustr list \<Rightarrow> error + real list list" where
  "pairwise_similarity ja texts =
     (case fit_transform (map (analyze ja) texts) of
        Inl e \<Rightarrow> Inl e
      | Inr (feature_names, X) \<Rightarrow> Inr (cosine_similarity X X))"

text \<open>
  Two notions for the proofs: the sum of squares of a row and the divisor that
  \<open>l2_normalize\<close> uses.
\<close>

definition ssq :: "real list \<Rightarrow> real" where
  "ssq v = (\<Sum>x\<leftarrow>v. x * x)"

definition l2_den :: "real list \<Rightarrow> real" where
  "l2_den v = (if sqrt (ssq v) = 0 then 1 else sqrt (ssq v))"

section \<open>Properties of sentence splitting\<close>

lemma strip_stripped: "strip s \<noteq> [] \<Longrightarrow> stripped (strip s)"
proof -
  assume ne: "strip s \<noteq> []"
  define t where "t = dropWhile is_space s"
  define u where "u = dropWhile is_space (rev t)"
  have su: "strip s = rev u" by (simp add: strip_def t_def u_def)
  with ne have une: "u \<noteq> []" by simp
  then have tne: "t \<noteq> []" by (auto simp: u_def)
  have hd_u: "\<not> is_space (hd u)" using une unfolding u_def by (rule hd_dropWhile)
  have hd_t: "\<not> is_space (hd t)" using tne unfolding t_def by (rule hd_dropWhile)
  obtain pre where pre: "rev t = pre @ u"
    by (metis takeWhile_dropWhile_id u_def)
  have "last u = last (rev t)" using une pre by simp
  also have "\<dots> = hd t" using tne by (simp add: last_rev)
  finally have "\<not> is_space (last u)" using hd_t by simp
  then show ?thesis using une hd_u by (simp add: stripped_def su last_rev hd_rev)
qed

lemma strip_id: "stripped s \<Longrightarrow> strip s = s"
proof -
  assume a: "stripped s"
  then have 1: "dropWhile is_space s = s" by (cases s) (auto simp: stripped_def)
  from a have "dropWhile is_space (rev s) = rev s"
    by (cases "rev s") (auto simp: stripped_def last_rev hd_rev)
  with 1 show ?thesis by (simp add: strip_def)
qed

lemma stripped_glue: "stripped a \<Longrightarrow> stripped b \<Longrightarrow> stripped (a @ 32 # b)"
  by (auto simp: stripped_def hd_append)

lemma raw_fragments_stripped: "\<forall>s \<in> set (raw_fragments text). stripped s"
  by (auto simp: raw_fragments_def strip_stripped)

lemma merge_loop_stripped:
  "\<forall>s \<in> set out. stripped s \<Longrightarrow> buf = [] \<or> stripped buf \<Longrightarrow> \<forall>s \<in> set raw. stripped s
   \<Longrightarrow> \<forall>s \<in> set (merge_loop out buf raw). stripped s"
proof (induction raw arbitrary: out buf)
  case Nil
  then show ?case by auto
next
  case (Cons s rest)
  show ?case
  proof (cases "length s < 20 \<and> buf \<noteq> []")
    case True
    with Cons.prems have g: "stripped (buf @ 32 # s)" by (auto intro: stripped_glue)
    then have e: "strip (buf @ 32 # s) = buf @ 32 # s" by (simp add: strip_id)
    have "\<forall>x \<in> set (merge_loop out (buf @ 32 # s) rest). stripped x"
      using Cons.prems g by (intro Cons.IH) auto
    with True e show ?thesis by simp
  next
    case False
    have "\<forall>x \<in> set (merge_loop (if buf \<noteq> [] then out @ [buf] else out) s rest). stripped x"
      using Cons.prems by (intro Cons.IH) auto
    with False show ?thesis by auto
  qed
qed




lemma raw_fragments_example:
  "raw_fragments (ascii ''Hi. This sentence is long enough to count.'') =
     [ascii ''Hi.'', ascii ''This sentence is long enough to count.'']"
  by (simp add: raw_fragments_def ascii_def strip_def is_space_def is_sent_end_def)


section \<open>Properties of graph construction\<close>

lemma inner_loop_eq:
  "i < length sim \<Longrightarrow> \<forall>j \<in> set js. j < length (sim ! i) \<Longrightarrow>
   inner_loop sim th i js edges = Inr (edges @ row_edges sim th i js)"
  by (induction js arbitrary: edges) (auto simp: mat_get_def row_edges_def)

lemma outer_loop_eq:
  "\<forall>row \<in> set sim. length row = n \<Longrightarrow> n = length sim \<Longrightarrow> \<forall>i \<in> set is. i < n \<Longrightarrow>
   outer_loop sim th n is edges = Inr (edges @ upper_edges sim th n is)"
proof (induction "is" arbitrary: edges)
  case Nil
  show ?case by (simp add: upper_edges_def)
next
  case (Cons i "is")
  have i: "i < length sim" using Cons.prems by simp
  then have "length (sim ! i) = n" using Cons.prems(1) by simp
  then have "inner_loop sim th i [i + 1 ..< n] edges = Inr (edges @ row_edges sim th i [i + 1 ..< n])"
    using i by (intro inner_loop_eq) auto
  moreover have "outer_loop sim th n is (edges @ row_edges sim th i [i + 1 ..< n])
      = Inr ((edges @ row_edges sim th i [i + 1 ..< n]) @ upper_edges sim th n is)"
    using Cons.prems by (intro Cons.IH) auto
  ultimately show ?case by (simp add: upper_edges_def)
qed

lemma build_edges_eq:
  assumes "\<forall>row \<in> set sim. length row = length sim"
  shows "build_edges sim th =
     Inr (sorted_by edge_weight True (upper_edges sim th (length sim) [0 ..< length sim]))"
  using outer_loop_eq [of sim "length sim" "[0 ..< length sim]" th "[]"] assms
  by (simp add: build_edges_def Let_def)

lemma set_row_edges:
  "set (row_edges sim th i js) = {Edge i j (sim ! i ! j) | j. j \<in> set js \<and> th \<le> sim ! i ! j}"
  by (auto simp: row_edges_def)

lemma set_upper_edges:
  "set (upper_edges sim th n [0 ..< n]) =
     {Edge i j (sim ! i ! j) | i j. i < j \<and> j < n \<and> th \<le> sim ! i ! j}"
  by (auto simp: upper_edges_def set_row_edges)

lemma distinct_row_edges: "distinct js \<Longrightarrow> distinct (row_edges sim th i js)"
  by (auto simp: row_edges_def distinct_map inj_on_def)

lemma distinct_upper_edges: "distinct is \<Longrightarrow> distinct (upper_edges sim th n is)"
proof (induction "is")
  case Nil
  show ?case by (simp add: upper_edges_def)
next
  case (Cons i "is")
  then have "distinct (upper_edges sim th n is)" by simp
  moreover have "distinct (row_edges sim th i [i + 1 ..< n])" by (simp add: distinct_row_edges)
  moreover have "set (row_edges sim th i [i + 1 ..< n]) \<inter> set (upper_edges sim th n is) = {}"
    using Cons.prems by (auto simp: upper_edges_def set_row_edges)
  ultimately show ?case by (simp add: upper_edges_def)
qed

lemma set_sorted_by [simp]: "set (sorted_by key r xs) = set xs"
  by (simp add: sorted_by_def)

lemma length_sorted_by [simp]: "length (sorted_by key r xs) = length xs"
  by (simp add: sorted_by_def)

lemma distinct_sorted_by [simp]: "distinct (sorted_by key r xs) = distinct xs"
  by (simp add: sorted_by_def)

lemma sorted_by_reverse_desc: "sorted_wrt (\<lambda>x y. key x \<ge> key y) (sorted_by key True xs)"
proof -
  have "sorted (map key (sort_key key (rev xs)))" by (rule sorted_sort_key)
  then have "sorted_wrt (\<lambda>x y. key x \<le> key y) (sort_key key (rev xs))"
    by (simp add: sorted_map)
  then show ?thesis by (simp add: sorted_by_def sorted_wrt_rev)
qed

text \<open>
  Claim C7. On a square matrix \<open>build_edges\<close> returns without error. The edges returned are
  exactly the pairs \<open>i < j\<close> of the upper triangle whose weight is at least the threshold,
  each once, in descending order of weight. Raising the threshold never gives more edges.
\<close>

theorem build_edges_upper_triangle_sorted:
  assumes "\<forall>row \<in> set sim. length row = length sim"
  shows "\<exists>es. build_edges sim th = Inr es \<and>
           set es = {Edge i j (sim ! i ! j) | i j. i < j \<and> j < length sim \<and> th \<le> sim ! i ! j} \<and>
           distinct es \<and>
           sorted_wrt (\<lambda>e f. edge_weight e \<ge> edge_weight f) es \<and>
           (\<forall>th'. th \<le> th' \<longrightarrow>
              (\<exists>es'. build_edges sim th' = Inr es' \<and> length es' \<le> length es))"
proof -
  let ?n = "length sim"
  let ?U = "\<lambda>t. upper_edges sim t ?n [0 ..< ?n]"
  let ?es = "sorted_by edge_weight True (?U th)"
  have eq: "\<And>t. build_edges sim t = Inr (sorted_by edge_weight True (?U t))"
    using assms by (rule build_edges_eq)
  have d: "\<And>t. distinct (?U t)" by (simp add: distinct_upper_edges)
  have mono: "length (?U th') \<le> length (?U th)" if "th \<le> th'" for th'
  proof -
    have "set (?U th') \<subseteq> set (?U th)" using that by (auto simp: set_upper_edges)
    then have "card (set (?U th')) \<le> card (set (?U th))" by (intro card_mono) auto
    then show ?thesis using d by (simp add: distinct_card)
  qed
  have "build_edges sim th = Inr ?es" by (rule eq)
  moreover have "set ?es = {Edge i j (sim ! i ! j) | i j. i < j \<and> j < ?n \<and> th \<le> sim ! i ! j}"
    by (simp add: set_upper_edges)
  moreover have "distinct ?es" using d by simp
  moreover have "sorted_wrt (\<lambda>e f. edge_weight e \<ge> edge_weight f) ?es"
    by (rule sorted_by_reverse_desc)
  moreover have "\<forall>th'. th \<le> th' \<longrightarrow>
              (\<exists>es'. build_edges sim th' = Inr es' \<and> length es' \<le> length ?es)"
    using eq mono by simp
  ultimately show ?thesis by blast
qed

theorem build_edges_upper_triangle_sorted_witness:
  "\<exists>es. build_edges [[1, 1/2, 0], [1/2, 1, 3/4], [0, 3/4, 1]] (1/4) = Inr es \<and>
        distinct es \<and> sorted_wrt (\<lambda>e f. edge_weight e \<ge> edge_weight f) es \<and>
        (\<exists>es'. build_edges [[1, 1/2, 0], [1/2, 1, 3/4], [0, 3/4, 1]] (3/5) = Inr es' \<and>
               length es' \<le> length es)"
proof -
  let ?M = "[[1, 1/2, 0], [1/2, 1, 3/4], [0, 3/4, 1 :: real]]"
  have sq: "\<forall>row \<in> set ?M. length row = length ?M" by simp
  from build_edges_upper_triangle_sorted [OF sq, of "1/4"]
  obtain es where es: "build_edges ?M (1/4) = Inr es" "distinct es"
      "sorted_wrt (\<lambda>e f. edge_weight e \<ge> edge_weight f) es"
      "\<forall>th'. 1/4 \<le> th' \<longrightarrow> (\<exists>es'. build_edges ?M th' = Inr es' \<and> length es' \<le> length es)"
    by blast
  from es(4) have "\<exists>es'. build_edges ?M (3/5) = Inr es' \<and> length es' \<le> length es"
    by simp
  with es(1-3) show ?thesis by blast
qed

lemma build_edges_example:
  "build_edges [[1, 1/2, 0], [1/2, 1, 3/4], [0, 3/4, 1]] (1/4) = Inr [Edge 1 2 (3/4), Edge 0 1 (1/2)]"
  by (simp add: build_edges_def mat_get_def sorted_by_def upt_rec)

section \<open>Properties of rendering\<close>

text \<open>Replacing the quote by the quote changes nothing: no label is ever escaped.\<close>

lemma py_replace_quote_id: "py_replace [34] [34] s = s"
proof (induction s)
  case Nil
  show ?case by simp
next
  case (Cons c s)
  then show ?case by (cases "c = 34") simp_all
qed

text \<open>
  Claim C8, at the node list \<^verbatim>\<open>[Node(id=0, label='a"b')]\<close> with no edges. The node line
  carries the label as it is: the quote inside the label is not preceded by a backslash
  (U+005C, here \<open>92\<close>), and no backslash occurs anywhere in the output.
\<close>

theorem render_dot_quote_not_escaped:
  "render_dot fmt2f [Node 0 (ascii ''a'' @ [34] @ ascii ''b'')] [] =
     ascii ''graph G {'' @ [10] @
     ascii ''  graph [overlap=false, splines=true];'' @ [10] @
     ascii ''  node [shape=box];'' @ [10] @
     ascii ''  D0 [label='' @ [34] @ ascii ''a'' @ [34] @ ascii ''b'' @ [34] @ ascii ''];'' @ [10] @
     ascii ''}'' \<and>
   92 \<notin> set (render_dot fmt2f [Node 0 (ascii ''a'' @ [34] @ ascii ''b'')] [])"
  by (simp add: render_dot_def dot_node_line_def py_replace_quote_id str_int_def ascii_def)

section \<open>Properties of summarization\<close>

lemma tokenize_example:
  "tokenize ja (ascii ''The cat sat on the mat. It's well-known!'') =
     map ascii [''cat'', ''sat'', ''mat'', ''it's'', ''well-known'']"
  by (simp add: tokenize_def is_probably_japanese_def is_jp_def ascii_def is_alpha_def
      is_word_char_def lower_def EN_STOP_def)

lemma summarize_fallback_example:
  "summarize fl ja (ascii ''1 2 3 4 5 6 7 8 9 10 11 12. 13 14 15 16 17 18 19 20 21 22.'') 1 =
     ascii ''1 2 3 4 5 6 7 8 9 10 11 12.''"
  by (simp add: summarize_def split_sentences_def raw_fragments_def strip_def is_space_def
      is_sent_end_def tokenize_def is_probably_japanese_def is_jp_def ascii_def is_alpha_def
      is_word_char_def token_counts_def py_take_def)

subsection \<open>No sentence contains a newline\<close>

lemma sent_split_re_no_newline:
  "10 \<notin> set cur \<Longrightarrow> p \<in> set (sent_split_re cur s) \<Longrightarrow> 10 \<notin> set p"
proof (induction cur s rule: sent_split_re.induct)
  case (1 cur)
  then show ?case by simp
next
  case (2 cur c cs)
  show ?case
  proof (cases "cur \<noteq> [] \<and> is_sent_end (last cur) \<and> is_space c")
    case True
    with "2.prems" have "p = cur \<or> p \<in> set (sent_split_re [] (dropWhile is_space cs))"
      by auto
    then show ?thesis using "2.IH"(1) [OF True] "2.prems"(1) by auto
  next
    case False
    show ?thesis
    proof (cases "c = 10")
      case True
      with False "2.prems" have "p = cur \<or> p \<in> set (sent_split_re [] (dropWhile (\<lambda>x. x = 10) cs))"
        by auto
      then show ?thesis using "2.IH"(2) [OF False True] "2.prems"(1) by auto
    next
      case c: False
      with False "2.prems" have "p \<in> set (sent_split_re (cur @ [c]) cs)" by auto
      moreover have "10 \<notin> set (cur @ [c])" using c "2.prems"(1) by simp
      ultimately show ?thesis using "2.IH"(3) [OF False c] by blast
    qed
  qed
qed

lemma set_strip: "set (strip s) \<subseteq> set s"
proof
  fix x
  assume "x \<in> set (strip s)"
  then have "x \<in> set (dropWhile is_space (rev (dropWhile is_space s)))"
    by (simp add: strip_def)
  then have "x \<in> set (rev (dropWhile is_space s))" by (rule set_dropWhileD)
  then have "x \<in> set (dropWhile is_space s)" by simp
  then show "x \<in> set s" by (rule set_dropWhileD)
qed

lemma strip_no_newline: "10 \<notin> set s \<Longrightarrow> 10 \<notin> set (strip s)"
  using set_strip [of s] by blast

lemma raw_fragments_no_newline: "s \<in> set (raw_fragments text) \<Longrightarrow> 10 \<notin> set s"
proof -
  assume "s \<in> set (raw_fragments text)"
  then obtain p where p: "p \<in> set (sent_split_re [] text)" "s = strip p"
    by (auto simp: raw_fragments_def)
  have "10 \<notin> set ([] :: ustr)" by simp
  from this p(1) have "10 \<notin> set p" by (rule sent_split_re_no_newline)
  then show ?thesis using p(2) by (simp add: strip_no_newline)
qed

lemma merge_loop_no_newline:
  "\<forall>s \<in> set out. 10 \<notin> set s \<Longrightarrow> 10 \<notin> set buf \<Longrightarrow> \<forall>s \<in> set raw. 10 \<notin> set s
   \<Longrightarrow> \<forall>s \<in> set (merge_loop out buf raw). 10 \<notin> set s"
proof (induction raw arbitrary: out buf)
  case Nil
  then show ?case by auto
next
  case (Cons s rest)
  show ?case
  proof (cases "length s < 20 \<and> buf \<noteq> []")
    case True
    have "10 \<notin> set (buf @ 32 # s)" using Cons.prems by simp
    then have "10 \<notin> set (strip (buf @ 32 # s))" by (rule strip_no_newline)
    then have "\<forall>x \<in> set (merge_loop out (strip (buf @ 32 # s)) rest). 10 \<notin> set x"
      using Cons.prems by (intro Cons.IH) auto
    with True show ?thesis by simp
  next
    case False
    have "\<forall>x \<in> set (merge_loop (if buf \<noteq> [] then out @ [buf] else out) s rest). 10 \<notin> set x"
      using Cons.prems by (intro Cons.IH) auto
    with False show ?thesis by auto
  qed
qed

lemma split_sentences_clean:
  "s \<in> set (split_sentences text) \<Longrightarrow> stripped s \<and> 10 \<notin> set s"
proof -
  assume s: "s \<in> set (split_sentences text)"
  have "\<forall>t \<in> set (merge_loop [] [] (raw_fragments text)). stripped t"
    by (intro merge_loop_stripped raw_fragments_stripped) auto
  moreover have "\<forall>t \<in> set (merge_loop [] [] (raw_fragments text)). 10 \<notin> set t"
    by (intro merge_loop_no_newline) (auto dest: raw_fragments_no_newline)
  ultimately show ?thesis using s by (simp add: split_sentences_def)
qed

subsection \<open>Joining and splitting at newlines\<close>

lemma split_on_skip: "c \<notin> set x \<Longrightarrow> split_on c cur (x @ r) = split_on c (cur @ x) r"
  by (induction x arbitrary: cur) auto

lemma split_on_join:
  "xs \<noteq> [] \<Longrightarrow> \<forall>x \<in> set xs. 10 \<notin> set x \<Longrightarrow>
   split_on 10 cur (join [10] xs) = (cur @ hd xs) # tl xs"
proof (induction "[10::nat]" xs arbitrary: cur rule: join.induct)
  case 1
  then show ?case by simp
next
  case (2 x)
  then show ?case using split_on_skip [of 10 x cur "[]"] by simp
next
  case (3 x y ys)
  have "split_on 10 cur (join [10] (x # y # ys)) = split_on 10 (cur @ x) (10 # join [10] (y # ys))"
    using "3.prems" split_on_skip [of 10 x cur "10 # join [10] (y # ys)"] by simp
  also have "\<dots> = (cur @ x) # split_on 10 [] (join [10] (y # ys))" by simp
  also have "split_on 10 [] (join [10] (y # ys)) = ([] @ hd (y # ys)) # tl (y # ys)"
    using "3.prems" by (intro "3.hyps") auto
  finally show ?case by simp
qed

lemma newline_lines_join:
  assumes "\<forall>x \<in> set xs. x \<noteq> [] \<and> 10 \<notin> set x"
  shows "newline_lines (join [10] xs) = xs"
proof (cases xs)
  case Nil
  then show ?thesis by (simp add: newline_lines_def)
next
  case (Cons x r)
  then have "split_on 10 [] (join [10] xs) = xs"
    using assms split_on_join [of xs "[]"] by simp
  moreover have "last xs \<noteq> []" using assms Cons by (metis last_in_set list.distinct(1))
  ultimately show ?thesis by (simp add: newline_lines_def)
qed

lemma join_ends:
  "xs \<noteq> [] \<Longrightarrow> \<forall>x \<in> set xs. x \<noteq> [] \<Longrightarrow>
   join sep xs \<noteq> [] \<and> hd (join sep xs) = hd (hd xs) \<and> last (join sep xs) = last (last xs)"
  by (induction sep xs rule: join.induct) auto

lemma strip_join:
  assumes "\<forall>x \<in> set xs. stripped x"
  shows "strip (join [10] xs) = join [10] xs"
proof (cases xs)
  case Nil
  then show ?thesis by (simp add: strip_def)
next
  case (Cons x r)
  then have ne: "xs \<noteq> []" by simp
  have "\<forall>x \<in> set xs. x \<noteq> []" using assms by (simp add: stripped_def)
  from join_ends [OF ne this, of "[10]"] have "stripped (join [10] xs)"
    using assms ne by (simp add: stripped_def)
  then show ?thesis by (rule strip_id)
qed

subsection \<open>Slices and stable sorting\<close>

lemma py_take_is_take: "\<exists>m. py_take k xs = take m xs"
  by (auto simp: py_take_def)

lemma length_py_take: "length (py_take k xs) \<le> length xs"
  by (simp add: py_take_def)

lemma length_py_take_pos: "0 < k \<Longrightarrow> length (py_take k xs) \<le> nat k"
  by (simp add: py_take_def)

lemma sorted_by_stable:
  "filter (\<lambda>z. key z = c) (sorted_by key r xs) = filter (\<lambda>z. key z = c) xs"
proof (cases r)
  case True
  have "filter (\<lambda>z. key z = c) (rev (sort_key key (rev xs)))
        = rev (filter (\<lambda>z. key z = c) (sort_key key (rev xs)))"
    by (simp add: rev_filter)
  also have "\<dots> = rev (filter (\<lambda>z. key z = c) (rev xs))"
    by (simp only: sort_key_stable)
  also have "\<dots> = filter (\<lambda>z. key z = c) xs"
    by (simp add: rev_filter)
  finally show ?thesis using True by (simp add: sorted_by_def)
next
  case False
  then show ?thesis by (simp add: sorted_by_def sort_key_stable)
qed

text \<open>
  In a list sorted highest key first, an element of a front part beats every element of
  the rest: its key is larger, or the keys are equal and it came first in the input.
\<close>

lemma sorted_by_reverse_split:
  fixes pos :: "'a \<Rightarrow> nat"
  assumes D: "sorted_by key True xs = P @ R"
    and x: "x \<in> set P" and y: "y \<in> set R"
    and ord: "sorted_wrt (\<lambda>u v. pos u < pos v) xs"
  shows "key y < key x \<or> (key y = key x \<and> pos x < pos y)"
proof -
  have "sorted_wrt (\<lambda>u v. key u \<ge> key v) (P @ R)"
    using sorted_by_reverse_desc [of key xs] D by simp
  then have ge: "key y \<le> key x" using x y by (auto simp: sorted_wrt_append)
  show ?thesis
  proof (cases "key y = key x")
    case False
    with ge show ?thesis by simp
  next
    case True
    let ?Q = "\<lambda>z. key z = key x"
    have "filter ?Q (P @ R) = filter ?Q xs"
      using sorted_by_stable [of key "key x" True xs] D by simp
    moreover have "sorted_wrt (\<lambda>u v. pos u < pos v) (filter ?Q xs)"
      using ord by (rule sorted_wrt_filter)
    ultimately have "sorted_wrt (\<lambda>u v. pos u < pos v) (filter ?Q P @ filter ?Q R)"
      by simp
    moreover have "x \<in> set (filter ?Q P)" "y \<in> set (filter ?Q R)" using x y True by simp_all
    ultimately have "pos x < pos y" unfolding sorted_wrt_append by blast
    with True show ?thesis by simp
  qed
qed

subsection \<open>The selection made by \<open>summarize\<close>\<close>

lemma foldl_bump_nonempty: "acc \<noteq> [] \<Longrightarrow> foldl bump acc toks \<noteq> []"
  by (induction toks arbitrary: acc) (simp_all add: bump_def)

lemma token_counts_empty: "token_counts toks = [] \<longleftrightarrow> toks = []"
proof (cases toks)
  case Nil
  then show ?thesis by (simp add: token_counts_def)
next
  case (Cons t ts)
  have "bump [] t \<noteq> []" by (simp add: bump_def)
  then have "foldl bump (bump [] t) ts \<noteq> []" by (rule foldl_bump_nonempty)
  with Cons show ?thesis by (simp add: token_counts_def)
qed

lemma map_fst_scored: "map fst (scored fl ja text) = [0 ..< length (split_sentences text)]"
  by (simp add: scored_def Let_def comp_def case_prod_unfold)

lemma length_py_take_eq: "length xs = length ys \<Longrightarrow> length (py_take k xs) = length (py_take k ys)"
  by (simp add: py_take_def)

lemma take_as_nth: "take m xs = map ((!) xs) [0 ..< min m (length xs)]"
proof -
  have "take m xs = take m (map ((!) xs) [0 ..< length xs])" by (simp add: map_nth)
  also have "\<dots> = map ((!) xs) (take m [0 ..< length xs])" by (simp add: take_map)
  also have "take m [0 ..< length xs] = [0 ..< min m (length xs)]"
    by (cases "m \<le> length xs") (simp_all add: min_def)
  finally show ?thesis .
qed

lemma top_idx_props:
  fixes fl :: "('f::linorder) float_ops" and ja :: "ustr \<Rightarrow> ustr list"
    and doc :: ustr and k :: int
  defines "S \<equiv> scored fl ja doc"
    and "n \<equiv> length (split_sentences doc)"
    and "idx \<equiv> map fst (top_idx fl ja doc k)"
  shows "sorted_wrt (<) idx"
    and "set idx \<subseteq> {..<n}"
    and "length idx = length (py_take k (split_sentences doc))"
    and "\<forall>i \<in> set idx. \<forall>j<n. j \<notin> set idx \<longrightarrow>
           snd (S ! j) < snd (S ! i) \<or> (snd (S ! j) = snd (S ! i) \<and> i < j)"
proof -
  define D where "D = sorted_by snd True S"
  obtain m where m: "py_take k D = take m D" using py_take_is_take by blast
  define P where "P = take m D"
  define R where "R = drop m D"
  have PR: "D = P @ R" by (simp add: P_def R_def)
  have fS: "map fst S = [0 ..< n]" by (simp add: S_def n_def map_fst_scored)
  then have lenS: "length S = n" by (metis length_map length_upt minus_nat.diff_0)
  have nthS: "fst (S ! l) = l" if "l < n" for l
  proof -
    have "fst (S ! l) = map fst S ! l" using that lenS by simp
    also have "\<dots> = l" using that by (simp add: fS)
    finally show ?thesis .
  qed
  have dS: "distinct (map fst S)" by (simp add: fS)
  have ordS: "sorted_wrt (\<lambda>u v. fst u < fst v) S"
  proof -
    have "sorted_wrt (<) (map fst S)" by (simp add: fS)
    then show ?thesis by (simp add: sorted_wrt_map)
  qed
  have setD: "set D = set S" by (simp add: D_def)
  have injS: "inj_on fst (set S)" using dS by (simp add: distinct_map)
  have dP: "distinct P" using dS by (simp add: P_def D_def distinct_map)
  have subP: "set P \<subseteq> set S" using setD by (metis P_def set_take_subset)
  have "top_idx fl ja doc k = sort_key fst (py_take k D)"
    by (simp add: top_idx_def sorted_by_def D_def S_def)
  then have idx: "idx = map fst (sort_key fst P)"
    by (simp add: idx_def m P_def)
  have set_idx: "set idx = fst ` set P" by (simp add: idx)
  have "sorted idx" unfolding idx by (rule sorted_sort_key)
  moreover have "distinct idx"
    unfolding idx using dP injS subP by (simp add: distinct_map inj_on_subset)
  ultimately show "sorted_wrt (<) idx" by (simp add: strict_sorted_iff)
  show "set idx \<subseteq> {..<n}"
  proof
    fix i assume "i \<in> set idx"
    then obtain x where "x \<in> set P" "fst x = i" using set_idx by auto
    then have "i \<in> set (map fst S)" using subP by auto
    then show "i \<in> {..<n}" by (simp add: fS)
  qed
  have "length idx = length (py_take k D)" by (simp add: idx m P_def)
  also have "\<dots> = length (py_take k (split_sentences doc))"
    by (rule length_py_take_eq) (simp add: D_def lenS n_def)
  finally show "length idx = length (py_take k (split_sentences doc))" .
  show "\<forall>i \<in> set idx. \<forall>j<n. j \<notin> set idx \<longrightarrow>
           snd (S ! j) < snd (S ! i) \<or> (snd (S ! j) = snd (S ! i) \<and> i < j)"
  proof (intro ballI allI impI)
    fix i j
    assume i: "i \<in> set idx" and j: "j < n" and nj: "j \<notin> set idx"
    from i obtain x where x: "x \<in> set P" "fst x = i" using set_idx by auto
    from x(1) subP obtain l where l: "l < n" "x = S ! l"
      by (metis in_set_conv_nth lenS subsetD)
    with x(2) nthS have xi: "x = S ! i" by auto
    have yS: "S ! j \<in> set S" using j lenS by simp
    have "S ! j \<notin> set P" using nj nthS [OF j] set_idx by force
    with yS setD PR have yR: "S ! j \<in> set R" by auto
    have "sorted_by snd True S = P @ R" using PR by (simp add: D_def)
    from sorted_by_reverse_split [OF this x(1) yR ordS]
    show "snd (S ! j) < snd (S ! i) \<or> (snd (S ! j) = snd (S ! i) \<and> i < j)"
      using xi nthS [OF j] x(2) by simp
  qed
qed

lemma summarize_selection:
  "\<exists>idx. summarize fl ja text k = join [10] (map ((!) (split_sentences text)) idx) \<and>
         sorted_wrt (<) idx \<and>
         set idx \<subseteq> {..<length (split_sentences text)} \<and>
         length idx = length (py_take k (split_sentences text)) \<and>
         (tokenize ja text = [] \<longrightarrow> idx = [0 ..< length idx]) \<and>
         (tokenize ja text \<noteq> [] \<longrightarrow>
            (\<forall>i \<in> set idx. \<forall>j<length (split_sentences text). j \<notin> set idx \<longrightarrow>
               snd (scored fl ja text ! j) < snd (scored fl ja text ! i) \<or>
               (snd (scored fl ja text ! j) = snd (scored fl ja text ! i) \<and> i < j)))"
proof -
  let ?sents = "split_sentences text"
  let ?n = "length ?sents"
  consider (none) "?sents = []" | (head) "?sents \<noteq> []" "tokenize ja text = []"
    | (ranked) "?sents \<noteq> []" "tokenize ja text \<noteq> []" by blast
  then show ?thesis
  proof cases
    case none
    then have "summarize fl ja text k = join [10] (map ((!) ?sents) [])"
      by (simp add: summarize_def)
    moreover have "length ([] :: nat list) = length (py_take k ?sents)"
      using none by (simp add: py_take_def)
    ultimately show ?thesis using none
      by (intro exI [of _ "[]"]) simp
  next
    case head
    obtain m where m: "py_take k ?sents = take m ?sents" using py_take_is_take by blast
    let ?idx = "[0 ..< min m ?n]"
    have tk: "py_take k ?sents = map ((!) ?sents) ?idx" unfolding m by (rule take_as_nth)
    have "summarize fl ja text k = join [10] (py_take k ?sents)"
      using head by (simp add: summarize_def token_counts_empty)
    then have 1: "summarize fl ja text k = join [10] (map ((!) ?sents) ?idx)" using tk by simp
    have 2: "sorted_wrt (<) ?idx" by simp
    have 3: "set ?idx \<subseteq> {..<?n}" by auto
    have 4: "length ?idx = length (py_take k ?sents)" by (simp add: m)
    have 5: "?idx = [0 ..< length ?idx]" by simp
    from 1 2 3 4 5 head(2) show ?thesis by blast
  next
    case ranked
    let ?idx = "map fst (top_idx fl ja text k)"
    note props = top_idx_props [of fl ja "text" k]
    have sub: "set ?idx \<subseteq> {..<?n}" by (rule props(2))
    let ?chosen = "map ((!) ?sents) ?idx"
    have ch: "map (\<lambda>(i, _). ?sents ! i) (top_idx fl ja text k) = ?chosen"
      by (simp add: case_prod_unfold comp_def)
    have "\<forall>x \<in> set ?chosen. stripped x"
    proof
      fix x assume "x \<in> set ?chosen"
      then obtain i where "i \<in> set ?idx" "x = ?sents ! i" by auto
      with sub have "x \<in> set ?sents" by auto
      then show "stripped x" using split_sentences_clean by blast
    qed
    then have st: "strip (join [10] ?chosen) = join [10] ?chosen" by (rule strip_join)
    have "summarize fl ja text k =
        strip (join [10] (map (\<lambda>(i, _). ?sents ! i) (top_idx fl ja text k)))"
      using ranked by (simp add: summarize_def token_counts_empty Let_def)
    also have "\<dots> = strip (join [10] ?chosen)" by (simp only: ch)
    finally have 1: "summarize fl ja text k = join [10] ?chosen" using st by simp
    from 1 props ranked(2) show ?thesis by blast
  qed
qed

lemma summarize_newline_bound:
  assumes "0 < k"
  shows "length (newline_lines (summarize fl ja text k)) \<le> nat k \<and>
         length (newline_lines (summarize fl ja text k)) \<le> length (split_sentences text)"
proof -
  let ?sents = "split_sentences text"
  from summarize_selection [of fl ja "text" k] obtain idx where
    eq: "summarize fl ja text k = join [10] (map ((!) ?sents) idx)" and
    sub: "set idx \<subseteq> {..<length ?sents}" and
    len: "length idx = length (py_take k ?sents)" by blast
  have "\<forall>x \<in> set (map ((!) ?sents) idx). x \<noteq> [] \<and> 10 \<notin> set x"
  proof
    fix x assume "x \<in> set (map ((!) ?sents) idx)"
    then obtain i where "i \<in> set idx" "x = ?sents ! i" by auto
    with sub have "x \<in> set ?sents" by auto
    then have "stripped x \<and> 10 \<notin> set x" by (rule split_sentences_clean)
    then show "x \<noteq> [] \<and> 10 \<notin> set x" by (simp add: stripped_def)
  qed
  then have "newline_lines (summarize fl ja text k) = map ((!) ?sents) idx"
    unfolding eq by (rule newline_lines_join)
  then have "length (newline_lines (summarize fl ja text k)) = length (py_take k ?sents)"
    using len by simp
  then show ?thesis
    using length_py_take_pos [OF assms, of ?sents] length_py_take [of k ?sents] by simp
qed

subsection \<open>Lines of the summary\<close>

lemma split_on_nonempty: "split_on c cur s \<noteq> []"
  by (induction s arbitrary: cur) auto

text \<open>Where the newline is the only line boundary, \<open>splitlines\<close> splits at newlines.\<close>

lemma line_boundary_10: "is_line_boundary 10"
  by (simp add: is_line_boundary_def)

lemma line_boundary_13: "is_line_boundary 13"
  by (simp add: is_line_boundary_def)

lemma normalise_last_Cons:
  "ps \<noteq> [] \<Longrightarrow>
   (if last (p # ps) = [] then butlast (p # ps) else p # ps) =
     p # (if last ps = [] then butlast ps else ps)"
  by simp

lemma splitlines_from_newline_only:
  assumes "\<forall>c \<in> set s. is_line_boundary c \<longrightarrow> c = 10"
  shows "splitlines_from cur s =
           (if last (split_on 10 cur s) = [] then butlast (split_on 10 cur s)
            else split_on 10 cur s)"
  using assms
proof (induction cur s rule: splitlines_from.induct)
  case (1 cur)
  show ?case by simp
next
  case (2 cur c)
  show ?case
  proof (cases "is_line_boundary c")
    case True
    with "2.prems" have "c = 10" by simp
    with True show ?thesis by simp
  next
    case False
    with line_boundary_10 have "c \<noteq> 10" by blast
    with False show ?thesis by simp
  qed
next
  case (3 cur c d cs)
  have pc: "is_line_boundary c \<longrightarrow> c = 10" using "3.prems" by simp
  have rest: "\<forall>x \<in> set (d # cs). is_line_boundary x \<longrightarrow> x = 10" using "3.prems" by simp
  have c13: "\<not> (c = 13 \<and> d = 10)"
  proof
    assume "c = 13 \<and> d = 10"
    with pc line_boundary_13 show False by simp
  qed
  show ?case
  proof (cases "is_line_boundary c")
    case True
    with pc have c: "c = 10" by simp
    have ih: "splitlines_from [] (d # cs) =
        (if last (split_on 10 [] (d # cs)) = [] then butlast (split_on 10 [] (d # cs))
         else split_on 10 [] (d # cs))"
      using c13 True rest by (rule "3.IH"(2))
    have ne: "split_on 10 [] (d # cs) \<noteq> []" by (rule split_on_nonempty)
    have l: "splitlines_from cur (c # d # cs) = cur # splitlines_from [] (d # cs)"
      using c13 True by (simp only: splitlines_from.simps if_False if_True)
    have r: "split_on 10 cur (c # d # cs) = cur # split_on 10 [] (d # cs)"
      unfolding c by simp
    show ?thesis
      unfolding l r ih by (rule normalise_last_Cons [OF ne, symmetric])
  next
    case False
    with line_boundary_10 have c: "c \<noteq> 10" by blast
    have ih: "splitlines_from (cur @ [c]) (d # cs) =
        (if last (split_on 10 (cur @ [c]) (d # cs)) = []
         then butlast (split_on 10 (cur @ [c]) (d # cs))
         else split_on 10 (cur @ [c]) (d # cs))"
      using c13 False rest by (rule "3.IH"(3))
    have l: "splitlines_from cur (c # d # cs) = splitlines_from (cur @ [c]) (d # cs)"
      using c13 False by (simp only: splitlines_from.simps if_False)
    have r: "split_on 10 cur (c # d # cs) = split_on 10 (cur @ [c]) (d # cs)"
      using c by simp
    show ?thesis unfolding l r by (rule ih)
  qed
qed

lemma splitlines_newline_only:
  "\<forall>c \<in> set s. is_line_boundary c \<longrightarrow> c = 10 \<Longrightarrow> splitlines s = newline_lines s"
  by (simp add: splitlines_def newline_lines_def Let_def splitlines_from_newline_only)

lemma set_join: "c \<in> set (join sep xs) \<Longrightarrow> c \<in> set sep \<or> (\<exists>x \<in> set xs. c \<in> set x)"
  by (induction sep xs rule: join.induct) auto

lemma split_sentences_carriage_return:
  "split_sentences (ascii ''12345 67890'' @ [13] @ ascii ''12345 67890 12345'') =
     [ascii ''12345 67890'' @ [13] @ ascii ''12345 67890 12345'']"
  by (simp add: split_sentences_def raw_fragments_def strip_def is_space_def is_sent_end_def
      ascii_def)

lemma tokenize_carriage_return:
  "tokenize ja (ascii ''12345 67890'' @ [13] @ ascii ''12345 67890 12345'') = []"
  by (simp add: tokenize_def is_probably_japanese_def is_jp_def ascii_def is_alpha_def)

lemma split_sentences_hi:
  "split_sentences (ascii ''Hi. This sentence is long enough to count.'') =
     [ascii ''Hi.'', ascii ''This sentence is long enough to count.'']"
  unfolding split_sentences_def raw_fragments_example by (simp add: ascii_def)

text \<open>
  Claim C5, as amended. For a requested count \<open>k > 0\<close> and a text none of whose sentences
  contains a line boundary of \<^verbatim>\<open>splitlines\<close>, the number of lines
  \<^verbatim>\<open>len(summarize(text, k).splitlines())\<close> is at most \<open>k\<close> and at most the number of sentences
  of the text.
\<close>

theorem summarize_splitlines_bound:
  assumes "0 < k"
    and "\<forall>s \<in> set (split_sentences text). \<forall>c \<in> set s. \<not> is_line_boundary c"
  shows "length (splitlines (summarize fl ja text k)) \<le> nat k \<and>
         length (splitlines (summarize fl ja text k)) \<le> length (split_sentences text)"
proof -
  let ?sents = "split_sentences text"
  from summarize_selection [of fl ja "text" k] obtain idx where
    eq: "summarize fl ja text k = join [10] (map ((!) ?sents) idx)" and
    sub: "set idx \<subseteq> {..<length ?sents}" by blast
  have "\<forall>c \<in> set (summarize fl ja text k). is_line_boundary c \<longrightarrow> c = 10"
  proof (intro ballI impI)
    fix c assume c: "c \<in> set (summarize fl ja text k)" and b: "is_line_boundary c"
    from c have "c \<in> set [10] \<or> (\<exists>x \<in> set (map ((!) ?sents) idx). c \<in> set x)"
      unfolding eq by (rule set_join)
    moreover have "\<not> (\<exists>x \<in> set (map ((!) ?sents) idx). c \<in> set x)"
    proof
      assume "\<exists>x \<in> set (map ((!) ?sents) idx). c \<in> set x"
      then obtain i where "i \<in> set idx" "c \<in> set (?sents ! i)" by auto
      with sub have "?sents ! i \<in> set ?sents" "c \<in> set (?sents ! i)" by auto
      with assms(2) b show False by blast
    qed
    ultimately show "c = 10" by simp
  qed
  then have "splitlines (summarize fl ja text k) = newline_lines (summarize fl ja text k)"
    by (rule splitlines_newline_only)
  with summarize_newline_bound [OF assms(1), of fl ja "text"] show ?thesis by simp
qed

theorem summarize_splitlines_bound_witness:
  "(0::int) < 1 \<and>
   split_sentences (ascii ''Hi. This sentence is long enough to count.'') =
     [ascii ''Hi.'', ascii ''This sentence is long enough to count.''] \<and>
   length (splitlines (summarize exact_ops (\<lambda>t. [])
      (ascii ''Hi. This sentence is long enough to count.'') 1)) \<le> 1 \<and>
   length (splitlines (summarize exact_ops (\<lambda>t. [])
      (ascii ''Hi. This sentence is long enough to count.'') 1)) \<le> 2"
proof -
  let ?T = "ascii ''Hi. This sentence is long enough to count.''"
  have k: "(0::int) < 1" by simp
  have clean: "\<forall>s \<in> set (split_sentences ?T). \<forall>c \<in> set s. \<not> is_line_boundary c"
    unfolding split_sentences_hi by (simp add: ascii_def is_line_boundary_def)
  from summarize_splitlines_bound [OF k clean, of exact_ops "\<lambda>t. []"] split_sentences_hi
  show ?thesis by simp
qed

text \<open>
  The claim as stated fails at the text \<^verbatim>\<open>'12345 67890\r12345 67890 12345'\<close> with \<open>k = 1\<close>.
  The carriage return stands inside the only sentence, the summary is that sentence, and
  \<^verbatim>\<open>splitlines\<close> breaks it into two lines: more than \<open>k\<close> and more than the one sentence.
\<close>

theorem summarize_splitlines_exceeds:
  "length (split_sentences (ascii ''12345 67890'' @ [13] @ ascii ''12345 67890 12345'')) = 1 \<and>
   summarize exact_ops (\<lambda>t. []) (ascii ''12345 67890'' @ [13] @ ascii ''12345 67890 12345'') 1 =
     ascii ''12345 67890'' @ [13] @ ascii ''12345 67890 12345'' \<and>
   length (splitlines (summarize exact_ops (\<lambda>t. [])
     (ascii ''12345 67890'' @ [13] @ ascii ''12345 67890 12345'') 1)) = 2"
proof -
  let ?T = "ascii ''12345 67890'' @ [13] @ ascii ''12345 67890 12345''"
  have tok: "token_counts (tokenize (\<lambda>t. []) ?T) = []"
    by (simp only: tokenize_carriage_return token_counts_def foldl.simps)
  have "summarize exact_ops (\<lambda>t. []) ?T 1 = join [10] (py_take 1 [?T])"
    unfolding summarize_def Let_def split_sentences_carriage_return tok by simp
  then have s: "summarize exact_ops (\<lambda>t. []) ?T 1 = ?T"
    by (simp add: py_take_def)
  have "length (splitlines ?T) = 2"
    by (simp add: splitlines_def ascii_def is_line_boundary_def)
  with s split_sentences_carriage_return show ?thesis by simp
qed

text \<open>
  Claim C6. The summary is the newline-join of the sentences at a strictly increasing list
  of indices, so the selected sentences stand in their order in the source whatever their
  scores. The list has as many indices as the slice \<^verbatim>\<open>[:k]\<close> of the sentences has elements.
  When the text has no tokens, the indices are the first ones. When it has tokens, every
  selected sentence beats every sentence left out: its score is higher, or the scores are
  equal and its index is the smaller one. The scores are those the float operations
  compute, whatever their rounding.
\<close>

theorem summarize_source_order:
  "\<exists>idx. summarize fl ja text k = join [10] (map ((!) (split_sentences text)) idx) \<and>
         sorted_wrt (<) idx \<and>
         set idx \<subseteq> {..<length (split_sentences text)} \<and>
         length idx =
           (if 0 \<le> k then min (nat k) (length (split_sentences text))
            else length (split_sentences text) - nat (- k)) \<and>
         (tokenize ja text = [] \<longrightarrow> idx = [0 ..< length idx]) \<and>
         (tokenize ja text \<noteq> [] \<longrightarrow>
            (\<forall>i \<in> set idx. \<forall>j<length (split_sentences text). j \<notin> set idx \<longrightarrow>
               snd (scored fl ja text ! j) < snd (scored fl ja text ! i) \<or>
               (snd (scored fl ja text ! j) = snd (scored fl ja text ! i) \<and> i < j)))"
proof -
  let ?n = "length (split_sentences text)"
  have len: "length (py_take k (split_sentences text)) =
          (if 0 \<le> k then min (nat k) ?n else ?n - nat (- k))"
  proof (cases "0 \<le> k")
    case True
    then show ?thesis by (simp add: py_take_def min.commute)
  next
    case False
    then show ?thesis by (simp add: py_take_def)
  qed
  from summarize_selection [of fl ja "text" k] obtain idx where
    p: "summarize fl ja text k = join [10] (map ((!) (split_sentences text)) idx)"
       "sorted_wrt (<) idx"
       "set idx \<subseteq> {..<?n}"
       "length idx = length (py_take k (split_sentences text))"
       "tokenize ja text = [] \<longrightarrow> idx = [0 ..< length idx]"
       "tokenize ja text \<noteq> [] \<longrightarrow>
            (\<forall>i \<in> set idx. \<forall>j<?n. j \<notin> set idx \<longrightarrow>
               snd (scored fl ja text ! j) < snd (scored fl ja text ! i) \<or>
               (snd (scored fl ja text ! j) = snd (scored fl ja text ! i) \<and> i < j))"
    by blast
  from p(4) len have "length idx = (if 0 \<le> k then min (nat k) ?n else ?n - nat (- k))"
    by simp
  with p(1,2,3,5,6) show ?thesis by blast
qed

lemma split_sentences_cats:
  "split_sentences (ascii ''Cats chase mice around the house. Dogs sleep all day long.'') =
     [ascii ''Cats chase mice around the house.'', ascii ''Dogs sleep all day long.'']"
  by (simp add: split_sentences_def raw_fragments_def strip_def is_space_def is_sent_end_def
      ascii_def)

theorem summarize_source_order_witness:
  "tokenize (\<lambda>t. []) (ascii ''Cats chase mice around the house. Dogs sleep all day long.'') \<noteq> [] \<and>
   (\<exists>idx. summarize exact_ops (\<lambda>t. [])
              (ascii ''Cats chase mice around the house. Dogs sleep all day long.'') 1 =
            join [10] (map ((!) (split_sentences
              (ascii ''Cats chase mice around the house. Dogs sleep all day long.''))) idx) \<and>
          sorted_wrt (<) idx \<and> length idx = 1 \<and>
          (\<forall>i \<in> set idx. \<forall>j<2. j \<notin> set idx \<longrightarrow>
               snd (scored exact_ops (\<lambda>t. [])
                      (ascii ''Cats chase mice around the house. Dogs sleep all day long.'') ! j)
                 < snd (scored exact_ops (\<lambda>t. [])
                      (ascii ''Cats chase mice around the house. Dogs sleep all day long.'') ! i) \<or>
               (snd (scored exact_ops (\<lambda>t. [])
                      (ascii ''Cats chase mice around the house. Dogs sleep all day long.'') ! j)
                 = snd (scored exact_ops (\<lambda>t. [])
                      (ascii ''Cats chase mice around the house. Dogs sleep all day long.'') ! i)
                \<and> i < j)))"
proof -
  let ?T = "ascii ''Cats chase mice around the house. Dogs sleep all day long.''"
  have tok: "tokenize (\<lambda>t. []) ?T \<noteq> []"
    by (simp add: tokenize_def is_probably_japanese_def is_jp_def ascii_def is_alpha_def
        is_word_char_def lower_def EN_STOP_def)
  have n: "length (split_sentences ?T) = 2" by (simp add: split_sentences_cats)
  from summarize_source_order [of exact_ops "\<lambda>t. []" ?T 1] obtain idx where
    p: "summarize exact_ops (\<lambda>t. []) ?T 1 = join [10] (map ((!) (split_sentences ?T)) idx)"
       "sorted_wrt (<) idx"
       "length idx = (if 0 \<le> (1::int) then min (nat 1) (length (split_sentences ?T))
                      else length (split_sentences ?T) - nat (- 1))"
       "tokenize (\<lambda>t. []) ?T \<noteq> [] \<longrightarrow>
            (\<forall>i \<in> set idx. \<forall>j<length (split_sentences ?T). j \<notin> set idx \<longrightarrow>
               snd (scored exact_ops (\<lambda>t. []) ?T ! j) < snd (scored exact_ops (\<lambda>t. []) ?T ! i) \<or>
               (snd (scored exact_ops (\<lambda>t. []) ?T ! j) = snd (scored exact_ops (\<lambda>t. []) ?T ! i)
                \<and> i < j))"
    by blast
  from p(3) n have l: "length idx = 1" by simp
  from p(4) tok n have r: "\<forall>i \<in> set idx. \<forall>j<2. j \<notin> set idx \<longrightarrow>
               snd (scored exact_ops (\<lambda>t. []) ?T ! j) < snd (scored exact_ops (\<lambda>t. []) ?T ! i) \<or>
               (snd (scored exact_ops (\<lambda>t. []) ?T ! j) = snd (scored exact_ops (\<lambda>t. []) ?T ! i)
                \<and> i < j)"
    by simp
  from tok p(1,2) l r show ?thesis by blast
qed

section \<open>Properties of the vector space\<close>


subsection \<open>Normalisation and dot product\<close>

lemma ssq_nonneg: "0 \<le> ssq v"
  unfolding ssq_def by (rule sum_list_nonneg) auto

lemma l2_den_pos: "0 < l2_den v"
  using ssq_nonneg [of v] by (simp add: l2_den_def)

lemma l2_normalize_eq: "l2_normalize v = map (\<lambda>x. x / l2_den v) v"
  by (simp add: l2_normalize_def l2_den_def ssq_def Let_def)

lemma length_l2_normalize [simp]: "length (l2_normalize v) = length v"
  by (simp add: l2_normalize_eq)

lemma l2_normalize_nth: "i < length v \<Longrightarrow> l2_normalize v ! i = v ! i / l2_den v"
  by (simp add: l2_normalize_eq)

lemma ssq_scale: "ssq (map (\<lambda>x. x / c) v) = ssq v / (c * c)"
  by (induction v) (simp_all add: ssq_def add_divide_distrib)

lemma ssq_zero_iff: "ssq v = 0 \<longleftrightarrow> (\<forall>x \<in> set v. x = 0)"
proof -
  have "(\<Sum>x\<leftarrow>v. x * x) = 0 \<longleftrightarrow> (\<forall>y \<in> set (map (\<lambda>x. x * x) v). y = 0)"
    by (rule sum_list_nonneg_eq_0_iff) auto
  then show ?thesis by (auto simp: ssq_def)
qed

lemma ssq_l2_normalize: "ssq (l2_normalize v) = (if ssq v = 0 then 0 else 1)"
proof (cases "ssq v = 0")
  case True
  then show ?thesis by (simp add: l2_normalize_eq ssq_scale)
next
  case False
  with ssq_nonneg [of v] have pos: "0 < ssq v" by simp
  then have "l2_den v * l2_den v = ssq v" by (simp add: l2_den_def)
  with False show ?thesis by (simp add: l2_normalize_eq ssq_scale)
qed

lemma dot_zero:
  assumes "length x = length y" "\<forall>i<length x. x ! i = 0 \<or> y ! i = 0"
  shows "dot x y = 0"
proof -
  have "map (\<lambda>(a, b). a * b) (zip x y) = map (\<lambda>p. 0) (zip x y)"
  proof (rule map_cong [OF refl])
    fix p assume "p \<in> set (zip x y)"
    then obtain i where "i < length x" "p = (x ! i, y ! i)"
      using assms(1) by (auto simp: in_set_zip)
    with assms(2) show "(case p of (a, b) \<Rightarrow> a * b) = 0" by auto
  qed
  then have "dot x y = sum_list (map (\<lambda>p. 0) (zip x y))"
    unfolding dot_def by (rule arg_cong)
  then show ?thesis by simp
qed

lemma dot_commute: "dot x y = dot y x"
proof -
  have "zip x y = map (\<lambda>(a, b). (b, a)) (zip y x)" by (rule zip_commute)
  then have "map (\<lambda>(a, b). a * b) (zip x y) = map (\<lambda>(a, b). a * b) (zip y x)"
    by (simp add: case_prod_unfold comp_def mult.commute)
  then show ?thesis by (simp add: dot_def)
qed

lemma dot_nonneg:
  assumes "\<forall>a \<in> set x. 0 \<le> a" "\<forall>b \<in> set y. 0 \<le> b"
  shows "0 \<le> dot x y"
  unfolding dot_def
proof (rule sum_list_nonneg)
  fix p assume "p \<in> set (map (\<lambda>(a, b). a * b) (zip x y))"
  then obtain a b where "(a, b) \<in> set (zip x y)" "p = a * b" by auto
  then have "a \<in> set x" "b \<in> set y" "p = a * b" by (auto dest: set_zip_leftD set_zip_rightD)
  with assms show "0 \<le> p" by simp
qed

lemma dot_self: "dot x x = ssq x"
  by (induction x) (simp_all add: dot_def ssq_def)

lemma two_dot_le: "length x = length y \<Longrightarrow> 2 * dot x y \<le> ssq x + ssq y"
proof (induction x y rule: list_induct2)
  case Nil
  show ?case by (simp add: dot_def ssq_def)
next
  case (Cons a x b y)
  have "2 * (a * b) \<le> a * a + b * b"
    using zero_le_square [of "a - b"] by (simp add: algebra_simps)
  with Cons.IH show ?case by (simp add: dot_def ssq_def algebra_simps)
qed

subsection \<open>Rows of the TF-IDF matrix\<close>

lemma doc_freq_le: "doc_freq docs t \<le> length docs"
  by (simp add: doc_freq_def)

lemma idf_ge_one: "df \<le> n \<Longrightarrow> 1 \<le> idf n df"
proof -
  assume "df \<le> n"
  then have "1 \<le> (1 + real n) / (1 + real df)" by simp
  then have "0 \<le> ln ((1 + real n) / (1 + real df))" by simp
  then show ?thesis by (simp add: idf_def)
qed

lemma set_vocabulary: "set (vocabulary docs) = (\<Union>d \<in> set docs. set d)"
  by (simp add: vocabulary_def)

lemma distinct_kept_features: "distinct (kept_features docs)"
  by (simp add: kept_features_def vocabulary_def)

lemma length_tfidf_row [simp]: "length (tfidf_row docs kept d) = length kept"
  by (simp add: tfidf_row_def)

lemma tfidf_row_nth:
  "i < length kept \<Longrightarrow>
   tfidf_row docs kept d ! i =
     real (count_list d (kept ! i)) * idf (length docs) (doc_freq docs (kept ! i))
       / l2_den (map (\<lambda>t. real (count_list d t) * idf (length docs) (doc_freq docs t)) kept)"
  by (simp add: tfidf_row_def l2_normalize_nth)

lemma tfidf_row_nonneg: "i < length kept \<Longrightarrow> 0 \<le> tfidf_row docs kept d ! i"
  using idf_ge_one [OF doc_freq_le, of docs "kept ! i"] l2_den_pos
  by (simp add: tfidf_row_nth less_imp_le)

lemma tfidf_row_zero_iff:
  "i < length kept \<Longrightarrow> tfidf_row docs kept d ! i = 0 \<longleftrightarrow> kept ! i \<notin> set d"
proof -
  assume i: "i < length kept"
  have "0 < idf (length docs) (doc_freq docs (kept ! i))"
    using idf_ge_one [OF doc_freq_le, of docs "kept ! i"] by simp
  moreover have "l2_den (map (\<lambda>t. real (count_list d t) * idf (length docs) (doc_freq docs t)) kept) \<noteq> 0"
    using l2_den_pos less_irrefl by metis
  ultimately show ?thesis using i by (simp add: tfidf_row_nth count_list_0_iff)
qed

lemma tfidf_row_all_nonneg: "\<forall>x \<in> set (tfidf_row docs kept d). 0 \<le> x"
  by (auto simp: in_set_conv_nth tfidf_row_nonneg)

lemma l2_normalize_all_nonneg: "\<forall>x \<in> set v. 0 \<le> x \<Longrightarrow> \<forall>x \<in> set (l2_normalize v). 0 \<le> x"
  using l2_den_pos [of v] by (auto simp: l2_normalize_eq less_imp_le)

subsection \<open>Buckets\<close>

lemma set_py_take: "set (py_take k xs) \<subseteq> set xs"
proof -
  obtain m where "py_take k xs = take m xs" using py_take_is_take by blast
  then show ?thesis by (simp add: set_take_subset)
qed

lemma bucket_index_bound: "i \<in> set (py_take k (rev (argsort v))) \<Longrightarrow> i < length v"
proof -
  assume i: "i \<in> set (py_take k (rev (argsort v)))"
  have "set (py_take k (rev (argsort v))) \<subseteq> set (rev (argsort v))" by (rule set_py_take)
  then have "i \<in> set (rev (argsort v))" using i by (rule subsetD)
  then have "i \<in> set (argsort v)" by (simp only: set_rev)
  then have "i \<in> set [0 ..< length v]" by (simp only: argsort_def set_sort)
  then show ?thesis by (simp only: set_upt atLeastLessThan_iff)
qed

lemma set_bucket:
  "set (bucket names v k) =
     (\<lambda>i. (names ! i, v ! i)) ` {i \<in> set (py_take k (rev (argsort v))). 0 < v ! i}"
  by (simp add: bucket_def Let_def)

lemma bucket_member:
  assumes "(t, x) \<in> set (bucket names v k)"
  shows "\<exists>i<length v. t = names ! i \<and> x = v ! i \<and> 0 < v ! i"
proof -
  from assms obtain i where i: "i \<in> set (py_take k (rev (argsort v)))" "0 < v ! i"
      "t = names ! i" "x = v ! i"
    unfolding set_bucket by blast
  from i(1) have "i < length v" by (rule bucket_index_bound)
  with i show ?thesis by blast
qed

lemma bucket_empty:
  assumes "\<forall>i<length v. v ! i \<le> 0"
  shows "bucket names v k = []"
proof -
  have "{i \<in> set (py_take k (rev (argsort v))). 0 < v ! i} = {}"
  proof -
    have "\<not> 0 < v ! i" if "i \<in> set (py_take k (rev (argsort v)))" for i
    proof -
      from that have "i < length v" by (rule bucket_index_bound)
      with assms have "v ! i \<le> 0" by blast
      then show ?thesis by simp
    qed
    then show ?thesis by blast
  qed
  then have "set (bucket names v k) = {}" unfolding set_bucket by simp
  then show ?thesis by simp
qed

lemma unique_bucket_member:
  assumes "length v = length names" "length w = length names"
    and "\<forall>i<length names. 0 \<le> w ! i"
    and "(t, x) \<in> set (bucket names (map2 (\<lambda>a b. max (a - b) 0) v w) k)"
  shows "\<exists>i<length names. t = names ! i \<and> 0 < v ! i"
proof -
  let ?u = "map2 (\<lambda>a b. max (a - b) 0) v w"
  have lu: "length ?u = length names" using assms(1,2) by simp
  from bucket_member [OF assms(4)] obtain i where
    i: "i < length ?u" "t = names ! i" "0 < ?u ! i" by blast
  from i(1) have il: "i < length names" using assms(1,2) by simp
  then have "?u ! i = max (v ! i - w ! i) 0" using assms(1,2) by simp
  with i(3) have "w ! i < v ! i" by simp
  moreover have "0 \<le> w ! i" using assms(3) il by blast
  ultimately have "0 < v ! i" by simp
  with il i(2) show ?thesis by blast
qed


subsection \<open>Two documents\<close>

lemma doc_freq_two:
  "doc_freq [d1, d2] t = (if t \<in> set d1 then 1 else 0) + (if t \<in> set d2 then 1 else 0)"
  by (simp add: doc_freq_def)

text \<open>
  With two documents the limit \<open>max_df\<close> allows a document frequency of at most \<open>1.9\<close>: a
  term is kept exactly when it occurs in one of the two documents and not in the other.
\<close>

lemma set_kept_features_two:
  "set (kept_features [d1, d2]) = {t. (t \<in> set d1) \<noteq> (t \<in> set d2)}"
  by (auto simp: kept_features_def set_vocabulary doc_freq_two max_df_def min_df_def)

lemma kept_features_two_empty: "kept_features [d1, d2] = [] \<longleftrightarrow> set d1 = set d2"
proof -
  have "kept_features [d1, d2] = [] \<longleftrightarrow> set (kept_features [d1, d2]) = {}" by simp
  also have "\<dots> \<longleftrightarrow> set d1 = set d2" unfolding set_kept_features_two by blast
  finally show ?thesis .
qed

lemma fit_transform_two:
  "fit_transform [d1, d2] =
     (if set d1 = set d2 then Inl ValueError
      else Inr (kept_features [d1, d2],
                [tfidf_row [d1, d2] (kept_features [d1, d2]) d1,
                 tfidf_row [d1, d2] (kept_features [d1, d2]) d2]))"
proof -
  have "vocabulary [d1, d2] = [] \<Longrightarrow> kept_features [d1, d2] = []"
    by (simp add: kept_features_def)
  then show ?thesis
    using kept_features_two_empty [of d1 d2]
    by (auto simp: fit_transform_def Let_def max_df_def min_df_def)
qed

lemma two_rows_orthogonal:
  assumes "i < length (kept_features [d1, d2])"
  shows "tfidf_row [d1, d2] (kept_features [d1, d2]) d1 ! i = 0 \<or>
         tfidf_row [d1, d2] (kept_features [d1, d2]) d2 ! i = 0"
proof -
  have "kept_features [d1, d2] ! i \<in> set (kept_features [d1, d2])" using assms by simp
  then have "kept_features [d1, d2] ! i \<notin> set d1 \<or> kept_features [d1, d2] ! i \<notin> set d2"
    unfolding set_kept_features_two by blast
  then show ?thesis using assms by (simp add: tfidf_row_zero_iff)
qed

lemma compare_texts_same_terms:
  assumes "set (analyze ja text1) = set (analyze ja text2)"
  shows "compare_texts ja text1 text2 k = Inl ValueError"
  using assms by (simp add: compare_texts_def fit_transform_two)

lemma compare_texts_other_terms:
  assumes ne: "set (analyze ja text1) \<noteq> set (analyze ja text2)"
  shows "\<exists>r. compare_texts ja text1 text2 k = Inr r \<and> similarity r = 0 \<and>
             common_terms r = [] \<and>
             fst ` set (doc1_unique_terms r) \<subseteq> set (analyze ja text1) - set (analyze ja text2) \<and>
             fst ` set (doc2_unique_terms r) \<subseteq> set (analyze ja text2) - set (analyze ja text1)"
proof -
  let ?d1 = "analyze ja text1" and ?d2 = "analyze ja text2"
  let ?kept = "kept_features [?d1, ?d2]"
  let ?v1 = "tfidf_row [?d1, ?d2] ?kept ?d1" and ?v2 = "tfidf_row [?d1, ?d2] ?kept ?d2"
  let ?common = "map2 min ?v1 ?v2"
  let ?u1 = "map2 (\<lambda>a b. max (a - b) 0) ?v1 ?v2"
  let ?u2 = "map2 (\<lambda>a b. max (a - b) 0) ?v2 ?v1"
  let ?sim = "dot (l2_normalize ?v1) (l2_normalize ?v2)"
  let ?r = "\<lparr>similarity = ?sim, common_terms = bucket ?kept ?common k,
             doc1_unique_terms = bucket ?kept ?u1 k, doc2_unique_terms = bucket ?kept ?u2 k\<rparr>"
  have eq: "compare_texts ja text1 text2 k = Inr ?r"
    using ne by (simp add: compare_texts_def fit_transform_two cosine_similarity_def Let_def)
  have orth: "\<forall>i<length ?kept. ?v1 ! i = 0 \<or> ?v2 ! i = 0"
    using two_rows_orthogonal by blast
  have "?sim = 0"
  proof (rule dot_zero)
    show "length (l2_normalize ?v1) = length (l2_normalize ?v2)" by simp
    show "\<forall>i<length (l2_normalize ?v1). l2_normalize ?v1 ! i = 0 \<or> l2_normalize ?v2 ! i = 0"
      using orth by (auto simp: l2_normalize_nth)
  qed
  moreover have "bucket ?kept ?common k = []"
  proof (rule bucket_empty, intro allI impI)
    fix i assume "i < length ?common"
    then have i: "i < length ?kept" by simp
    then have "?common ! i = min (?v1 ! i) (?v2 ! i)" by simp
    moreover have "0 \<le> ?v1 ! i" "0 \<le> ?v2 ! i" using i by (simp_all add: tfidf_row_nonneg)
    ultimately show "?common ! i \<le> 0" using orth i by auto
  qed
  moreover have "fst ` set (bucket ?kept ?u1 k) \<subseteq> set ?d1 - set ?d2"
  proof
    fix t assume "t \<in> fst ` set (bucket ?kept ?u1 k)"
    then obtain x where "(t, x) \<in> set (bucket ?kept ?u1 k)" by auto
    then obtain i where i: "i < length ?kept" "t = ?kept ! i" "0 < ?v1 ! i"
      using unique_bucket_member [of ?v1 ?kept ?v2 t x k] by (auto simp: tfidf_row_nonneg)
    then have "t \<in> set ?d1" using tfidf_row_zero_iff [of i ?kept "[?d1, ?d2]" ?d1] by auto
    moreover have "t \<in> set ?kept" using i by simp
    ultimately show "t \<in> set ?d1 - set ?d2" unfolding set_kept_features_two by blast
  qed
  moreover have "fst ` set (bucket ?kept ?u2 k) \<subseteq> set ?d2 - set ?d1"
  proof
    fix t assume "t \<in> fst ` set (bucket ?kept ?u2 k)"
    then obtain x where "(t, x) \<in> set (bucket ?kept ?u2 k)" by auto
    then obtain i where i: "i < length ?kept" "t = ?kept ! i" "0 < ?v2 ! i"
      using unique_bucket_member [of ?v2 ?kept ?v1 t x k] by (auto simp: tfidf_row_nonneg)
    then have "t \<in> set ?d2" using tfidf_row_zero_iff [of i ?kept "[?d1, ?d2]" ?d2] by auto
    moreover have "t \<in> set ?kept" using i by simp
    ultimately show "t \<in> set ?d2 - set ?d1" unfolding set_kept_features_two by blast
  qed
  ultimately show ?thesis using eq by simp
qed

section \<open>Properties of \<^verbatim>\<open>compare_texts\<close>\<close>

lemma analyze_cat:
  "analyze ja (ascii ''the cat sat on the mat'') =
     map ascii [''cat'', ''sat'', ''mat'', ''cat sat'', ''sat mat'']"
  by (simp add: analyze_def word_ngrams_def tokenize_def is_probably_japanese_def is_jp_def
      ascii_def is_alpha_def is_word_char_def lower_def EN_STOP_def)

lemma analyze_dog:
  "analyze ja (ascii ''the dog sat on the mat'') =
     map ascii [''dog'', ''sat'', ''mat'', ''dog sat'', ''sat mat'']"
  by (simp add: analyze_def word_ngrams_def tokenize_def is_probably_japanese_def is_jp_def
      ascii_def is_alpha_def is_word_char_def lower_def EN_STOP_def)

lemma analyze_cat_dog_differ:
  "set (analyze ja (ascii ''the cat sat on the mat'')) \<noteq>
   set (analyze ja (ascii ''the dog sat on the mat''))"
proof -
  have "ascii ''cat'' \<in> set (analyze ja (ascii ''the cat sat on the mat''))"
    unfolding analyze_cat by simp
  moreover have "ascii ''cat'' \<notin> set (analyze ja (ascii ''the dog sat on the mat''))"
    unfolding analyze_dog by (simp add: ascii_def)
  ultimately show ?thesis by blast
qed

lemma tokenize_empty: "tokenize ja [] = []"
  by (simp add: tokenize_def is_probably_japanese_def)

lemma analyze_no_tokens: "tokenize ja text = [] \<Longrightarrow> analyze ja text = []"
  by (simp add: analyze_def word_ngrams_def)

lemma analyze_some_tokens: "tokenize ja text \<noteq> [] \<Longrightarrow> analyze ja text \<noteq> []"
  by (simp add: analyze_def word_ngrams_def)

text \<open>
  Claim C1, at two equal texts. Every term of a text compared with itself occurs in both
  documents, so no term is kept and the vectoriser raises: the comparison of any text with
  itself returns no similarity at all.
\<close>

theorem compare_texts_self_raises: "compare_texts ja t t k = Inl ValueError"
  by (rule compare_texts_same_terms) simp

text \<open>
  Claim C2, at the texts of the scenario. The comparison returns, with similarity \<open>0\<close> and
  an empty list of common terms: the shared terms \<^verbatim>\<open>sat\<close>, \<^verbatim>\<open>mat\<close> and \<^verbatim>\<open>sat mat\<close> occur in
  both documents and are removed from the vocabulary.
\<close>

theorem compare_texts_cat_dog:
  "\<exists>r. compare_texts (\<lambda>t. []) (ascii ''the cat sat on the mat'')
          (ascii ''the dog sat on the mat'') 15 = Inr r \<and>
        similarity r = 0 \<and> common_terms r = []"
  using compare_texts_other_terms [OF analyze_cat_dog_differ, of "\<lambda>t. []" 15] by blast

text \<open>
  Claim C3, as amended. When both texts have no tokens the comparison raises
  \<^verbatim>\<open>ValueError\<close>. When exactly one text has no tokens the comparison returns: the
  similarity is \<open>0\<close>, and the common terms and the unique terms of the text without tokens
  are empty.
\<close>

theorem compare_texts_without_tokens:
  "(tokenize ja text1 = [] \<and> tokenize ja text2 = [] \<longrightarrow>
      compare_texts ja text1 text2 k = Inl ValueError) \<and>
   (tokenize ja text1 = [] \<and> tokenize ja text2 \<noteq> [] \<longrightarrow>
      (\<exists>r. compare_texts ja text1 text2 k = Inr r \<and> similarity r = 0 \<and>
            common_terms r = [] \<and> doc1_unique_terms r = [])) \<and>
   (tokenize ja text1 \<noteq> [] \<and> tokenize ja text2 = [] \<longrightarrow>
      (\<exists>r. compare_texts ja text1 text2 k = Inr r \<and> similarity r = 0 \<and>
            common_terms r = [] \<and> doc2_unique_terms r = []))"
proof (intro conjI impI)
  assume "tokenize ja text1 = [] \<and> tokenize ja text2 = []"
  then have "set (analyze ja text1) = set (analyze ja text2)"
    by (simp add: analyze_no_tokens)
  then show "compare_texts ja text1 text2 k = Inl ValueError"
    by (rule compare_texts_same_terms)
next
  assume a: "tokenize ja text1 = [] \<and> tokenize ja text2 \<noteq> []"
  then have e: "analyze ja text1 = []" by (simp add: analyze_no_tokens)
  from a have "analyze ja text2 \<noteq> []" by (simp add: analyze_some_tokens)
  with e have "set (analyze ja text1) \<noteq> set (analyze ja text2)" by simp
  from compare_texts_other_terms [OF this, of k] obtain r where
    r: "compare_texts ja text1 text2 k = Inr r" "similarity r = 0" "common_terms r = []"
       "fst ` set (doc1_unique_terms r) \<subseteq> set (analyze ja text1) - set (analyze ja text2)"
    by blast
  from r(4) e have "doc1_unique_terms r = []" by simp
  with r(1-3) show "\<exists>r. compare_texts ja text1 text2 k = Inr r \<and> similarity r = 0 \<and>
            common_terms r = [] \<and> doc1_unique_terms r = []" by blast
next
  assume a: "tokenize ja text1 \<noteq> [] \<and> tokenize ja text2 = []"
  then have e: "analyze ja text2 = []" by (simp add: analyze_no_tokens)
  from a have "analyze ja text1 \<noteq> []" by (simp add: analyze_some_tokens)
  with e have "set (analyze ja text1) \<noteq> set (analyze ja text2)" by simp
  from compare_texts_other_terms [OF this, of k] obtain r where
    r: "compare_texts ja text1 text2 k = Inr r" "similarity r = 0" "common_terms r = []"
       "fst ` set (doc2_unique_terms r) \<subseteq> set (analyze ja text2) - set (analyze ja text1)"
    by blast
  from r(4) e have "doc2_unique_terms r = []" by simp
  with r(1-3) show "\<exists>r. compare_texts ja text1 text2 k = Inr r \<and> similarity r = 0 \<and>
            common_terms r = [] \<and> doc2_unique_terms r = []" by blast
qed

lemma tokenize_cat: "tokenize ja (ascii ''cat dog'') = [ascii ''cat'', ascii ''dog'']"
  by (simp add: tokenize_def is_probably_japanese_def is_jp_def
      ascii_def is_alpha_def is_word_char_def lower_def EN_STOP_def)

theorem compare_texts_without_tokens_witness:
  "tokenize (\<lambda>t. []) [] = [] \<and> tokenize (\<lambda>t. []) (ascii ''cat dog'') \<noteq> [] \<and>
   compare_texts (\<lambda>t. []) [] [] 15 = Inl ValueError \<and>
   (\<exists>r. compare_texts (\<lambda>t. []) [] (ascii ''cat dog'') 15 = Inr r \<and> similarity r = 0 \<and>
        common_terms r = [] \<and> doc1_unique_terms r = []) \<and>
   (\<exists>r. compare_texts (\<lambda>t. []) (ascii ''cat dog'') [] 15 = Inr r \<and> similarity r = 0 \<and>
        common_terms r = [] \<and> doc2_unique_terms r = [])"
proof -
  have e: "tokenize (\<lambda>t. []) [] = []" by (rule tokenize_empty)
  have n: "tokenize (\<lambda>t. []) (ascii ''cat dog'') \<noteq> []" by (simp add: tokenize_cat)
  from compare_texts_without_tokens [of "\<lambda>t. []" "[]" "[]" 15] e
  have 1: "compare_texts (\<lambda>t. []) [] [] 15 = Inl ValueError" by blast
  from compare_texts_without_tokens [of "\<lambda>t. []" "[]" "ascii ''cat dog''" 15] e n
  have 2: "\<exists>r. compare_texts (\<lambda>t. []) [] (ascii ''cat dog'') 15 = Inr r \<and> similarity r = 0 \<and>
        common_terms r = [] \<and> doc1_unique_terms r = []" by blast
  from compare_texts_without_tokens [of "\<lambda>t. []" "ascii ''cat dog''" "[]" 15] e n
  have 3: "\<exists>r. compare_texts (\<lambda>t. []) (ascii ''cat dog'') [] 15 = Inr r \<and> similarity r = 0 \<and>
        common_terms r = [] \<and> doc2_unique_terms r = []" by blast
  from e n 1 2 3 show ?thesis by blast
qed

text \<open>The claim as stated fails at two empty texts: the comparison raises.\<close>

theorem compare_texts_empty_raises: "compare_texts (\<lambda>t. []) [] [] 15 = Inl ValueError"
  by (rule compare_texts_same_terms) simp

text \<open>
  Claim C4. Whenever the comparison returns, no term stands in two of the three lists:
  the list of common terms, the unique terms of the first text and the unique terms of the
  second text are pairwise disjoint.
\<close>

theorem compare_texts_buckets_disjoint:
  assumes "compare_texts ja text1 text2 k = Inr r"
  shows "fst ` set (common_terms r) \<inter> fst ` set (doc1_unique_terms r) = {} \<and>
         fst ` set (common_terms r) \<inter> fst ` set (doc2_unique_terms r) = {} \<and>
         fst ` set (doc1_unique_terms r) \<inter> fst ` set (doc2_unique_terms r) = {}"
proof (cases "set (analyze ja text1) = set (analyze ja text2)")
  case True
  then have "compare_texts ja text1 text2 k = Inl ValueError"
    by (rule compare_texts_same_terms)
  with assms show ?thesis by simp
next
  case False
  from compare_texts_other_terms [OF False, of k] assms
  have "common_terms r = []"
    and "fst ` set (doc1_unique_terms r) \<subseteq> set (analyze ja text1) - set (analyze ja text2)"
    and "fst ` set (doc2_unique_terms r) \<subseteq> set (analyze ja text2) - set (analyze ja text1)"
    by auto
  then show ?thesis by auto
qed

theorem compare_texts_buckets_disjoint_witness:
  "\<exists>r. compare_texts (\<lambda>t. []) (ascii ''the cat sat on the mat'')
          (ascii ''the dog sat on the mat'') 15 = Inr r \<and>
        fst ` set (common_terms r) \<inter> fst ` set (doc1_unique_terms r) = {} \<and>
        fst ` set (common_terms r) \<inter> fst ` set (doc2_unique_terms r) = {} \<and>
        fst ` set (doc1_unique_terms r) \<inter> fst ` set (doc2_unique_terms r) = {}"
proof -
  from compare_texts_other_terms [OF analyze_cat_dog_differ, of "\<lambda>t. []" 15]
  obtain r where r: "compare_texts (\<lambda>t. []) (ascii ''the cat sat on the mat'')
          (ascii ''the dog sat on the mat'') 15 = Inr r" by blast
  from compare_texts_buckets_disjoint [OF r] r show ?thesis by blast
qed

section \<open>Properties of \<^verbatim>\<open>pairwise_similarity\<close>\<close>

lemma fit_transform_Inr:
  assumes "fit_transform docs = Inr (names, X)"
  shows "names = kept_features docs" "names \<noteq> []" "X = map (tfidf_row docs names) docs"
  using assms by (auto simp: fit_transform_def Let_def split: if_splits)

lemma fit_transform_returns:
  assumes "kept_features docs \<noteq> []" "real min_df \<le> max_df * real (length docs)"
  shows "fit_transform docs =
           Inr (kept_features docs, map (tfidf_row docs (kept_features docs)) docs)"
proof -
  have "vocabulary docs \<noteq> []" using assms(1) by (auto simp: kept_features_def)
  with assms show ?thesis by (simp add: fit_transform_def Let_def)
qed

lemma ssq_tfidf_row_zero_iff:
  "ssq (tfidf_row docs kept d) = 0 \<longleftrightarrow> set d \<inter> set kept = {}"
proof -
  have "ssq (tfidf_row docs kept d) = 0 \<longleftrightarrow> (\<forall>i<length kept. tfidf_row docs kept d ! i = 0)"
    unfolding ssq_zero_iff by (metis in_set_conv_nth length_tfidf_row)
  also have "\<dots> \<longleftrightarrow> (\<forall>i<length kept. kept ! i \<notin> set d)"
    by (simp add: tfidf_row_zero_iff)
  also have "\<dots> \<longleftrightarrow> set d \<inter> set kept = {}"
    by (metis disjoint_iff in_set_conv_nth)
  finally show ?thesis .
qed

lemma cosine_entry_bounds:
  assumes "length x = length y" "\<forall>a \<in> set x. 0 \<le> a" "\<forall>b \<in> set y. 0 \<le> b"
  shows "0 \<le> dot (l2_normalize x) (l2_normalize y) \<and> dot (l2_normalize x) (l2_normalize y) \<le> 1"
proof
  show "0 \<le> dot (l2_normalize x) (l2_normalize y)"
    using assms(2,3) by (intro dot_nonneg l2_normalize_all_nonneg)
  have "2 * dot (l2_normalize x) (l2_normalize y) \<le> ssq (l2_normalize x) + ssq (l2_normalize y)"
    using assms(1) by (intro two_dot_le) simp
  also have "\<dots> \<le> 1 + 1" by (intro add_mono) (simp_all add: ssq_l2_normalize)
  finally show "dot (l2_normalize x) (l2_normalize y) \<le> 1" by simp
qed

lemma cosine_diagonal:
  "dot (l2_normalize (tfidf_row docs kept d)) (l2_normalize (tfidf_row docs kept d)) =
     (if set d \<inter> set kept = {} then 0 else 1)"
proof -
  have "ssq (l2_normalize (tfidf_row docs kept d)) = (if ssq (tfidf_row docs kept d) = 0 then 0 else 1)"
    by (rule ssq_l2_normalize)
  then show ?thesis by (simp add: dot_self ssq_tfidf_row_zero_iff)
qed

lemma pairwise_similarity_entry:
  assumes "pairwise_similarity ja texts = Inr M" "i < length texts" "j < length texts"
  shows "M ! i ! j =
     dot (l2_normalize (tfidf_row (map (analyze ja) texts) (kept_features (map (analyze ja) texts))
                          (analyze ja (texts ! i))))
         (l2_normalize (tfidf_row (map (analyze ja) texts) (kept_features (map (analyze ja) texts))
                          (analyze ja (texts ! j))))"
proof -
  let ?docs = "map (analyze ja) texts"
  from assms(1) obtain names X where fx: "fit_transform ?docs = Inr (names, X)"
      and M: "M = cosine_similarity X X"
    by (auto simp: pairwise_similarity_def split: sum.splits)
  from fit_transform_Inr [OF fx] have "X = map (tfidf_row ?docs (kept_features ?docs)) ?docs"
    by simp
  with M assms(2,3) show ?thesis by (simp add: cosine_similarity_def)
qed

lemma pairwise_similarity_shape:
  assumes "pairwise_similarity ja texts = Inr M"
  shows "length M = length texts" "\<forall>row \<in> set M. length row = length texts"
proof -
  let ?docs = "map (analyze ja) texts"
  from assms(1) obtain names X where fx: "fit_transform ?docs = Inr (names, X)"
      and M: "M = cosine_similarity X X"
    by (auto simp: pairwise_similarity_def split: sum.splits)
  from fit_transform_Inr [OF fx] have "length X = length texts" by simp
  with M show "length M = length texts" "\<forall>row \<in> set M. length row = length texts"
    by (auto simp: cosine_similarity_def)
qed

text \<open>
  Claim C9, as amended. When \<open>pairwise_similarity\<close> returns, the matrix has as many rows and
  columns as there are texts, it is symmetric, and every entry lies between \<open>0\<close> and \<open>1\<close>.
  The diagonal entry of a text is \<open>1\<close> when at least one of its terms is kept in the
  vocabulary, and \<open>0\<close> when none is.
\<close>

theorem pairwise_similarity_matrix:
  assumes "pairwise_similarity ja texts = Inr M"
  shows "length M = length texts \<and>
         (\<forall>row \<in> set M. length row = length texts) \<and>
         (\<forall>i<length texts. \<forall>j<length texts.
            M ! i ! j = M ! j ! i \<and> 0 \<le> M ! i ! j \<and> M ! i ! j \<le> 1) \<and>
         (\<forall>i<length texts.
            M ! i ! i =
              (if set (analyze ja (texts ! i)) \<inter> set (kept_features (map (analyze ja) texts)) = {}
               then 0 else 1))"
proof (intro conjI allI impI)
  show "length M = length texts" "\<forall>row \<in> set M. length row = length texts"
    using pairwise_similarity_shape [OF assms] by blast+
next
  fix i j assume ij: "i < length texts" "j < length texts"
  note e1 = pairwise_similarity_entry [OF assms ij]
  note e2 = pairwise_similarity_entry [OF assms ij(2) ij(1)]
  show "M ! i ! j = M ! j ! i" unfolding e1 e2 by (rule dot_commute)
  have "0 \<le> M ! i ! j \<and> M ! i ! j \<le> 1"
    unfolding e1 by (rule cosine_entry_bounds) (simp_all add: tfidf_row_all_nonneg)
  then show "0 \<le> M ! i ! j" "M ! i ! j \<le> 1" by simp_all
next
  fix i assume i: "i < length texts"
  show "M ! i ! i =
      (if set (analyze ja (texts ! i)) \<inter> set (kept_features (map (analyze ja) texts)) = {}
       then 0 else 1)"
    unfolding pairwise_similarity_entry [OF assms i i] by (rule cosine_diagonal)
qed

lemma pairwise_cat_dog_empty:
  "\<exists>M. pairwise_similarity (\<lambda>t. []) [ascii ''cat dog'', []] = Inr M"
proof -
  let ?docs = "map (analyze (\<lambda>t. [])) [ascii ''cat dog'', []]"
  have d: "?docs = [analyze (\<lambda>t. []) (ascii ''cat dog''), []]"
    by (simp add: analyze_no_tokens tokenize_empty)
  have "analyze (\<lambda>t. []) (ascii ''cat dog'') \<noteq> []"
    by (rule analyze_some_tokens) (simp add: tokenize_cat)
  then have "kept_features ?docs \<noteq> []"
    unfolding d by (simp add: kept_features_two_empty)
  moreover have "real min_df \<le> max_df * real (length ?docs)"
    by (simp add: min_df_def max_df_def)
  ultimately have "fit_transform ?docs =
      Inr (kept_features ?docs, map (tfidf_row ?docs (kept_features ?docs)) ?docs)"
    by (rule fit_transform_returns)
  then show ?thesis by (simp add: pairwise_similarity_def)
qed

theorem pairwise_similarity_matrix_witness:
  "\<exists>M. pairwise_similarity (\<lambda>t. []) [ascii ''cat dog'', []] = Inr M \<and>
        length M = 2 \<and> M ! 0 ! 1 = M ! 1 ! 0 \<and> 0 \<le> M ! 0 ! 1 \<and> M ! 0 ! 1 \<le> 1"
proof -
  from pairwise_cat_dog_empty obtain M where
    M: "pairwise_similarity (\<lambda>t. []) [ascii ''cat dog'', []] = Inr M" by blast
  from pairwise_similarity_matrix [OF M] have "length M = 2"
    and "\<forall>i<2. \<forall>j<2. M ! i ! j = M ! j ! i \<and> 0 \<le> M ! i ! j \<and> M ! i ! j \<le> 1"
    by simp_all
  then have "length M = 2 \<and> M ! 0 ! 1 = M ! 1 ! 0 \<and> 0 \<le> M ! 0 ! 1 \<and> M ! 0 ! 1 \<le> 1"
    by simp
  with M show ?thesis by blast
qed

text \<open>
  The claim as stated fails at the texts \<^verbatim>\<open>["cat dog", ""]\<close>: the function returns, and the
  diagonal entry of the empty text is \<open>0\<close>, not \<open>1\<close>.
\<close>

theorem pairwise_similarity_zero_diagonal:
  "\<exists>M. pairwise_similarity (\<lambda>t. []) [ascii ''cat dog'', []] = Inr M \<and> M ! 1 ! 1 = 0"
proof -
  from pairwise_cat_dog_empty obtain M where
    M: "pairwise_similarity (\<lambda>t. []) [ascii ''cat dog'', []] = Inr M" by blast
  let ?texts = "[ascii ''cat dog'', []]"
  let ?docs = "map (analyze (\<lambda>t. [])) ?texts"
  have "M ! 1 ! 1 =
      dot (l2_normalize (tfidf_row ?docs (kept_features ?docs) (analyze (\<lambda>t. []) (?texts ! 1))))
          (l2_normalize (tfidf_row ?docs (kept_features ?docs) (analyze (\<lambda>t. []) (?texts ! 1))))"
    by (rule pairwise_similarity_entry [OF M]) simp_all
  also have "\<dots> = (if set (analyze (\<lambda>t. []) (?texts ! 1)) \<inter> set (kept_features ?docs) = {}
                    then 0 else 1)"
    by (rule cosine_diagonal)
  also have "analyze (\<lambda>t. []) (?texts ! 1) = []"
    by (simp add: analyze_no_tokens tokenize_empty)
  finally have "M ! 1 ! 1 = 0" by simp
  with M show ?thesis by blast
qed

end
